theory Spec2Isabelle
  imports Complex_Main "HOL-Library.AList" "HOL-Library.Product_Lexorder"
begin

section \<open>Icarus cache replacement policies (icarus/models/cache.py)\<close>

text \<open>
  The module implements five cache replacement policies (\<open>NullCache\<close>, \<open>LruCache\<close>,
  \<open>LfuCache\<close>, \<open>FifoCache\<close>, \<open>RandCache\<close>) and two functions that wrap a cache
  instance (\<open>rand_insert_cache\<close>, \<open>keyval_cache\<close>). Every method is embedded as a
  function on the fields of the instance; a raised exception is the \<open>Inl\<close> of a sum.
\<close>

subsection \<open>Python values\<close>

text \<open>The exceptions the module can raise, by class.\<close>

datatype error = ValueError | TypeError | KeyError | AttributeError | IndexError | RecursionError

text \<open>
  A Python dictionary is an association list in insertion order; every write goes
  through \<open>AList.update\<close> (overwrite in place, or append) and every \<open>del\<close>
  through \<open>AList.delete\<close>, so a key occurs at most once and \<open>len\<close> is the length.
\<close>

type_synonym ('k, 'v) dict = "('k \<times> 'v) list"

definition dict_has :: "'k \<Rightarrow> ('k, 'v) dict \<Rightarrow> bool" where
  "dict_has k d = (k \<in> fst ` set d)"

text \<open>
  A Python set is the list of its elements without repetition. Python leaves the
  iteration order of a set unspecified; the model lists the elements in the order they
  were added. \<open>remove\<close> raises \<open>KeyError\<close> on an element that is not there.
\<close>

type_synonym 'k pyset = "'k list"

definition set_add :: "'k \<Rightarrow> 'k pyset \<Rightarrow> 'k pyset" where
  "set_add k s = (if k \<in> set s then s else s @ [k])"

definition set_remove :: "'k \<Rightarrow> 'k pyset \<Rightarrow> error + 'k pyset" where
  "set_remove k s = (if k \<in> set s then Inr (removeAll k s) else Inl KeyError)"

text \<open>Sequencing of statements that may raise.\<close>

fun ebind :: "error + 'a \<Rightarrow> ('a \<Rightarrow> error + 'b) \<Rightarrow> error + 'b" where
  "ebind (Inl e) f = Inl e"
| "ebind (Inr x) f = f x"

text \<open>
  The calls a client makes on a cache instance. \<open>has\<close>, \<open>dump\<close> and \<open>len\<close>
  change nothing and are left out of call sequences.
\<close>

datatype 'k call = Get 'k | Put 'k | Clear

text \<open>
  \<open>min(iterable, key=f)\<close>: the first element whose key is smallest; \<open>ValueError\<close>
  on an empty iterable.
\<close>

fun min_from :: "('a \<Rightarrow> 'b::linorder) \<Rightarrow> 'a \<Rightarrow> 'a list \<Rightarrow> 'a" where
  "min_from key m [] = m"
| "min_from key m (x # xs) = min_from key (if key x < key m then x else m) xs"

definition py_min :: "('a \<Rightarrow> 'b::linorder) \<Rightarrow> 'a list \<Rightarrow> error + 'a" where
  "py_min key xs = (case xs of [] \<Rightarrow> Inl ValueError | x # ys \<Rightarrow> Inr (min_from key x ys))"

text \<open>
  \<open>sorted(iterable, key=f, reverse=True)\<close>: a stable sort in descending order
  (equal keys keep their original order).
\<close>

definition py_sorted_reverse :: "('a \<Rightarrow> 'b::linorder) \<Rightarrow> 'a list \<Rightarrow> 'a list" where
  "py_sorted_reverse key xs = rev (sort_key key (rev xs))"

subsection \<open>LfuCache\<close>

text \<open>
  Fields: \<open>_cache\<close>, a dictionary from key to the tuple \<open>(freq, t)\<close>; the counter
  \<open>t\<close>; \<open>_maxlen\<close>. Tuples compare lexicographically.
\<close>

record 'k lfu =
  lfu_cache :: "('k, int \<times> int) dict"
  lfu_t :: int
  lfu_maxlen :: int

definition LfuCache :: "int \<Rightarrow> error + 'k lfu" where
  "LfuCache maxlen =
     (let self = \<lparr>lfu_cache = [], lfu_t = 0, lfu_maxlen = maxlen\<rparr>
      in if lfu_maxlen self \<le> 0 then Inl ValueError else Inr self)"

definition lfu_len :: "'k lfu \<Rightarrow> int" where
  "lfu_len self = int (length (lfu_cache self))"

definition lfu_dump :: "'k lfu \<Rightarrow> 'k list" where
  "lfu_dump self = map fst (py_sorted_reverse snd (lfu_cache self))"

definition lfu_has :: "'k \<Rightarrow> 'k lfu \<Rightarrow> bool" where
  "lfu_has k self = dict_has k (lfu_cache self)"

definition lfu_get :: "'k \<Rightarrow> 'k lfu \<Rightarrow> error + (bool \<times> 'k lfu)" where
  "lfu_get k self =
     (if lfu_has k self then
        (case map_of (lfu_cache self) k of
           None \<Rightarrow> Inl KeyError
         | Some (freq, t) \<Rightarrow>
             Inr (True, self\<lparr>lfu_cache := AList.update k (freq + 1, t) (lfu_cache self)\<rparr>))
      else Inr (False, self))"

text \<open>
  In \<open>put\<close>, \<open>min(self._cache, key=lambda x: self._cache[x])\<close> walks the keys in
  dictionary order and compares the tuples stored under them: the walk is over the
  items, compared by their second component.
\<close>

definition lfu_put :: "'k \<Rightarrow> 'k lfu \<Rightarrow> error + ('k option \<times> 'k lfu)" where
  "lfu_put k self =
     (if \<not> lfu_has k self then
        (let self1 = self\<lparr>lfu_t := lfu_t self + 1\<rparr>;
             self2 = self1\<lparr>lfu_cache := AList.update k (1, lfu_t self1) (lfu_cache self1)\<rparr>
         in if lfu_len self2 > lfu_maxlen self2 then
              (case py_min snd (lfu_cache self2) of
                 Inl e \<Rightarrow> Inl e
               | Inr (evicted, _) \<Rightarrow>
                   Inr (Some evicted,
                        self2\<lparr>lfu_cache := AList.delete evicted (lfu_cache self2)\<rparr>))
            else Inr (None, self2))
      else Inr (None, self))"

definition lfu_clear :: "'k lfu \<Rightarrow> 'k lfu" where
  "lfu_clear self = self\<lparr>lfu_cache := []\<rparr>"

fun lfu_call :: "'k call \<Rightarrow> 'k lfu \<Rightarrow> error + 'k lfu" where
  "lfu_call (Get k) self = ebind (lfu_get k self) (\<lambda>(found, self'). Inr self')"
| "lfu_call (Put k) self = ebind (lfu_put k self) (\<lambda>(evicted, self'). Inr self')"
| "lfu_call Clear self = Inr (lfu_clear self)"

fun lfu_run :: "'k call list \<Rightarrow> 'k lfu \<Rightarrow> error + 'k lfu" where
  "lfu_run [] self = Inr self"
| "lfu_run (c # cs) self = ebind (lfu_call c self) (lfu_run cs)"

subsection \<open>FifoCache\<close>

text \<open>
  Fields: the set \<open>_cache\<close>, \<open>_maxlen\<close> and the deque \<open>d\<close>, whose left end is
  the head of the list: \<open>appendleft\<close> conses, \<open>pop\<close> takes the last element and
  raises \<open>IndexError\<close> on an empty deque.
\<close>

record 'k fifo =
  fifo_cache :: "'k pyset"
  fifo_maxlen :: int
  fifo_d :: "'k list"

definition FifoCache :: "int \<Rightarrow> error + 'k fifo" where
  "FifoCache maxlen =
     (let self = \<lparr>fifo_cache = [], fifo_maxlen = maxlen, fifo_d = []\<rparr>
      in if fifo_maxlen self \<le> 0 then Inl ValueError else Inr self)"

definition fifo_len :: "'k fifo \<Rightarrow> int" where
  "fifo_len self = int (length (fifo_cache self))"

definition fifo_dump :: "'k fifo \<Rightarrow> 'k list" where
  "fifo_dump self = fifo_d self"

definition fifo_has :: "'k \<Rightarrow> 'k fifo \<Rightarrow> bool" where
  "fifo_has k self = (k \<in> set (fifo_cache self))"

definition fifo_get :: "'k \<Rightarrow> 'k fifo \<Rightarrow> bool" where
  "fifo_get k self = fifo_has k self"

definition fifo_put :: "'k \<Rightarrow> 'k fifo \<Rightarrow> error + ('k option \<times> 'k fifo)" where
  "fifo_put k self =
     (let self1 = (if \<not> fifo_has k self
                   then self\<lparr>fifo_cache := set_add k (fifo_cache self), fifo_d := k # fifo_d self\<rparr>
                   else self)
      in if fifo_len self1 > fifo_maxlen self1 then
           (if fifo_d self1 = [] then Inl IndexError
            else let evicted = last (fifo_d self1);
                     self2 = self1\<lparr>fifo_d := butlast (fifo_d self1)\<rparr>
                 in ebind (set_remove evicted (fifo_cache self2))
                      (\<lambda>c. Inr (Some evicted, self2\<lparr>fifo_cache := c\<rparr>)))
         else Inr (None, self1))"

definition fifo_clear :: "'k fifo \<Rightarrow> 'k fifo" where
  "fifo_clear self = self\<lparr>fifo_cache := [], fifo_d := []\<rparr>"

subsection \<open>The random module\<close>

text \<open>
  \<open>RandCache.put\<close> and \<open>rand_insert_cache\<close> call \<open>random.randint\<close>,
  \<open>random.random\<close> and \<open>random.seed\<close>, that is, the one generator of the
  \<open>random\<close> module that the whole process shares. The generator is not part of the
  module under verification: it is a parameter, given by the type \<open>'g\<close> of its
  states and the three functions the module calls. The state of the process-wide
  generator is threaded through every method that can reach it. Floats are compared
  only, never computed with, and are modelled as reals. \<open>seed None\<close>, which
  Python seeds from the system, is one more state that the parameter fixes.
\<close>

record ('g, 'sd) random_module =
  seed :: "'sd option \<Rightarrow> 'g"
  random :: "'g \<Rightarrow> real \<times> 'g"
  randint :: "int \<Rightarrow> int \<Rightarrow> 'g \<Rightarrow> int \<times> 'g"

text \<open>
  What the documentation of the module promises of the draws: \<open>random()\<close> is in
  \<open>[0, 1)\<close> and \<open>randint(a, b)\<close> is in \<open>[a, b]\<close>.
\<close>

definition random_in_range :: "('g, 'sd) random_module \<Rightarrow> bool" where
  "random_in_range R =
     ((\<forall>g. 0 \<le> fst (random R g) \<and> fst (random R g) < 1) \<and>
      (\<forall>a b g. a \<le> b \<longrightarrow> a \<le> fst (randint R a b g) \<and> fst (randint R a b g) \<le> b))"

text \<open>
  A generator for the concrete runs below (Python's own is the Mersenne Twister, which
  this theory does not model): its state counts the draws, \<open>random()\<close> runs through
  \<open>0, 1/4, 1/2, 3/4\<close> and \<open>randint(a, b)\<close> through \<open>a, \<dots>, b\<close>.
\<close>

definition counter_random :: "(nat, nat) random_module" where
  "counter_random =
     \<lparr>seed = (\<lambda>sd. case sd of None \<Rightarrow> 0 | Some n \<Rightarrow> n),
      random = (\<lambda>g. (real (g mod 4) / 4, Suc g)),
      randint = (\<lambda>a b g. (a + int g mod (b - a + 1), Suc g))\<rparr>"

subsection \<open>RandCache\<close>

text \<open>
  Fields: the set \<open>_cache\<close>, the numpy object array \<open>a\<close> of length
  \<open>maxlen\<close> (a slot that was never written holds \<open>None\<close>) and \<open>_maxlen\<close>.
  \<open>np.empty\<close> raises \<open>ValueError\<close> on a negative length; an index into the array
  counts from the end when negative and raises \<open>IndexError\<close> out of range.
\<close>

record 'k rand =
  rand_cache :: "'k pyset"
  rand_a :: "'k option list"
  rand_maxlen :: int

definition np_empty :: "int \<Rightarrow> error + 'k option list" where
  "np_empty n = (if n < 0 then Inl ValueError else Inr (replicate (nat n) None))"

definition np_index :: "'a list \<Rightarrow> int \<Rightarrow> error + nat" where
  "np_index xs i =
     (let n = int (length xs); j = (if i < 0 then n + i else i)
      in if 0 \<le> j \<and> j < n then Inr (nat j) else Inl IndexError)"

definition RandCache :: "int \<Rightarrow> error + 'k rand" where
  "RandCache maxlen =
     ebind (np_empty maxlen) (\<lambda>arr.
       let self = \<lparr>rand_cache = [], rand_a = arr, rand_maxlen = maxlen\<rparr>
       in if rand_maxlen self \<le> 0 then Inl ValueError else Inr self)"

definition randcache_len :: "'k rand \<Rightarrow> int" where
  "randcache_len self = int (length (rand_cache self))"

definition randcache_dump :: "'k rand \<Rightarrow> 'k list" where
  "randcache_dump self = rand_cache self"

definition randcache_has :: "'k \<Rightarrow> 'k rand \<Rightarrow> bool" where
  "randcache_has k self = (k \<in> set (rand_cache self))"

definition randcache_get :: "'k \<Rightarrow> 'k rand \<Rightarrow> bool" where
  "randcache_get k self = randcache_has k self"

definition randcache_put ::
  "('g, 'sd) random_module \<Rightarrow> 'k \<Rightarrow> 'g \<times> 'k rand \<Rightarrow> error + ('k option \<times> 'g \<times> 'k rand)" where
  "randcache_put R k = (\<lambda>(g, self).
     if \<not> randcache_has k self then
       (if randcache_len self = rand_maxlen self then
          (let (evicted_index, g') = randint R 0 (rand_maxlen self - 1) g
           in ebind (np_index (rand_a self) evicted_index) (\<lambda>i.
                case rand_a self ! i of
                  None \<Rightarrow> Inl KeyError
                | Some evicted \<Rightarrow>
                    (let self1 = self\<lparr>rand_a := (rand_a self)[i := Some k]\<rparr>
                     in ebind (set_remove evicted (rand_cache self1)) (\<lambda>c.
                          Inr (Some evicted, g', self1\<lparr>rand_cache := set_add k c\<rparr>)))))
        else
          ebind (np_index (rand_a self) (randcache_len self)) (\<lambda>i.
            let self1 = self\<lparr>rand_a := (rand_a self)[i := Some k]\<rparr>
            in Inr (None, g, self1\<lparr>rand_cache := set_add k (rand_cache self1)\<rparr>)))
     else Inr (None, g, self))"

definition randcache_clear :: "'k rand \<Rightarrow> 'k rand" where
  "randcache_clear self = self\<lparr>rand_cache := []\<rparr>"

subsection \<open>NullCache\<close>

text \<open>
  The class has no field and its constructor ignores its argument and raises nothing;
  the instance is the constructor \<open>Null\<close> of the type of cache instances below.
\<close>

definition null_len :: int where
  "null_len = 0"

definition null_dump :: "'k list" where
  "null_dump = []"

definition null_has :: "'k \<Rightarrow> bool" where
  "null_has k = False"

definition null_get :: "'k \<Rightarrow> bool" where
  "null_get k = False"

definition null_put :: "'k \<Rightarrow> 'k option" where
  "null_put k = None"

subsection \<open>LruCache\<close>

text \<open>
  The instances of class \<open>Node\<close> live in a store, a map from references to nodes,
  and the fields \<open>up\<close> and \<open>down\<close> hold references or \<open>None\<close>. A new node gets
  the next unused reference. The store belongs to the cache instance, so a deep copy
  of the instance is a copy of the record.
\<close>

type_synonym ref = nat

record 'k node =
  down :: "ref option"
  val :: 'k
  up :: "ref option"
  hits :: int
  time :: int

definition Node :: "ref option \<Rightarrow> 'k \<Rightarrow> 'k node" where
  "Node d v = \<lparr>down = d, val = v, up = None, hits = 0, time = 0\<rparr>"

text \<open>
  Fields: the dictionary \<open>_cache\<close> from key to node, \<open>bottom\<close>, \<open>top\<close> and
  \<open>_maxlen\<close>; then the store and the next unused reference.
\<close>

record 'k lru =
  lru_cache :: "('k, ref) dict"
  lru_bottom :: "ref option"
  lru_top :: "ref option"
  lru_maxlen :: int
  lru_heap :: "ref \<rightharpoonup> 'k node"
  lru_next :: ref

definition LruCache :: "int \<Rightarrow> error + 'k lru" where
  "LruCache maxlen =
     (let self = \<lparr>lru_cache = [], lru_bottom = None, lru_top = None, lru_maxlen = maxlen,
                   lru_heap = Map.empty, lru_next = 0\<rparr>
      in if lru_maxlen self \<le> 0 then Inl ValueError else Inr self)"

text \<open>
  Reading an attribute through a reference raises \<open>AttributeError\<close> when the
  reference is \<open>None\<close>. A reference to no object does not exist in Python; the model
  raises there too.
\<close>

definition deref :: "ref option \<Rightarrow> 'k lru \<Rightarrow> error + 'k node" where
  "deref r self =
     (case r of
        None \<Rightarrow> Inl AttributeError
      | Some a \<Rightarrow> (case lru_heap self a of None \<Rightarrow> Inl AttributeError | Some n \<Rightarrow> Inr n))"

text \<open>The assignments \<open>r.up = v\<close> and \<open>r.down = v\<close>.\<close>

definition set_up :: "ref option \<Rightarrow> ref option \<Rightarrow> 'k lru \<Rightarrow> error + 'k lru" where
  "set_up r v self =
     (case r of
        None \<Rightarrow> Inl AttributeError
      | Some a \<Rightarrow>
          (case lru_heap self a of
             None \<Rightarrow> Inl AttributeError
           | Some n \<Rightarrow> Inr (self\<lparr>lru_heap := (lru_heap self)(a \<mapsto> n\<lparr>up := v\<rparr>)\<rparr>)))"

definition set_down :: "ref option \<Rightarrow> ref option \<Rightarrow> 'k lru \<Rightarrow> error + 'k lru" where
  "set_down r v self =
     (case r of
        None \<Rightarrow> Inl AttributeError
      | Some a \<Rightarrow>
          (case lru_heap self a of
             None \<Rightarrow> Inl AttributeError
           | Some n \<Rightarrow> Inr (self\<lparr>lru_heap := (lru_heap self)(a \<mapsto> n\<lparr>down := v\<rparr>)\<rparr>)))"

definition alloc :: "'k node \<Rightarrow> 'k lru \<Rightarrow> ref \<times> 'k lru" where
  "alloc n self =
     (lru_next self,
      self\<lparr>lru_heap := (lru_heap self)(lru_next self \<mapsto> n), lru_next := Suc (lru_next self)\<rparr>)"

definition dict_del :: "'k \<Rightarrow> ('k, 'v) dict \<Rightarrow> error + ('k, 'v) dict" where
  "dict_del k d = (if dict_has k d then Inr (AList.delete k d) else Inl KeyError)"

definition lru_len :: "'k lru \<Rightarrow> int" where
  "lru_len self = int (length (lru_cache self))"

text \<open>
  \<open>dump\<close> follows the \<open>down\<close> references from \<open>top\<close> until it meets \<open>None\<close>;
  on a cyclic chain the loop does not return, which is the value \<open>None\<close> here.
\<close>

partial_function (option) dump_loop ::
  "(ref \<rightharpoonup> 'k node) \<Rightarrow> ref option \<Rightarrow> 'k list \<Rightarrow> (error + 'k list) option" where
  "dump_loop h cur d =
     (case cur of
        None \<Rightarrow> Some (Inr d)
      | Some a \<Rightarrow>
          (case h a of
             None \<Rightarrow> Some (Inl AttributeError)
           | Some n \<Rightarrow> dump_loop h (down n) (d @ [val n])))"

definition lru_dump :: "'k lru \<Rightarrow> (error + 'k list) option" where
  "lru_dump self = dump_loop (lru_heap self) (lru_top self) []"

definition lru_has :: "'k \<Rightarrow> 'k lru \<Rightarrow> bool" where
  "lru_has k self = dict_has k (lru_cache self)"

text \<open>
  \<open>get\<close> and \<open>put\<close> both contain the same five statements that put a new node for
  \<open>k\<close> on top: \<open>obj = Node(self.top, k)\<close>, the two conditionals on \<open>bottom\<close> and
  \<open>top\<close>, \<open>self.top = obj\<close> and \<open>self._cache[k] = obj\<close>. A node object is always
  true, so \<open>if self.top\<close> tests for \<open>None\<close>.
\<close>

definition push_top :: "'k \<Rightarrow> 'k lru \<Rightarrow> error + 'k lru" where
  "push_top k self =
     (let (obj, self1) = alloc (Node (lru_top self) k) self;
          self2 = (if lru_bottom self1 = None then self1\<lparr>lru_bottom := Some obj\<rparr> else self1)
      in ebind (if lru_top self2 \<noteq> None then set_up (lru_top self2) (Some obj) self2
                else Inr self2) (\<lambda>self3.
           Inr (self3\<lparr>lru_top := Some obj,
                       lru_cache := AList.update k obj (lru_cache self3)\<rparr>)))"

definition lru_get :: "'k \<Rightarrow> 'k lru \<Rightarrow> error + (bool \<times> 'k lru)" where
  "lru_get k self =
     (if \<not> lru_has k self then Inr (False, self)
      else
        (case map_of (lru_cache self) k of
           None \<Rightarrow> Inl KeyError
         | Some node \<Rightarrow>
             ebind (deref (Some node) self) (\<lambda>n.
               if up n = None then Inr (True, self)
               else
                 ebind (if down n \<noteq> None then set_up (down n) (up n) self
                        else Inr (self\<lparr>lru_bottom := up n\<rparr>)) (\<lambda>self1.
                 ebind (deref (Some node) self1) (\<lambda>n1.
                 ebind (set_down (up n1) (down n1) self1) (\<lambda>self2.
                 ebind (dict_del k (lru_cache self2)) (\<lambda>c.
                 ebind (push_top k (self2\<lparr>lru_cache := c\<rparr>)) (\<lambda>self3.
                   Inr (True, self3)))))))))"

text \<open>
  \<open>put\<close> begins with \<open>if self.get(k): return None\<close>. The name \<open>get\<close> is looked
  up on the instance: it is \<open>LruCache.get\<close> unless a wrapper has given the instance
  another \<open>get\<close> (as \<open>keyval_cache\<close> does, see below). \<open>lru_insert\<close> is the rest
  of \<open>put\<close>, the statements after that test; \<open>lru_put\<close> is \<open>put\<close> on an instance
  whose \<open>get\<close> is the one of the class.
\<close>

definition lru_insert :: "'k \<Rightarrow> 'k lru \<Rightarrow> error + ('k option \<times> 'k lru)" where
  "lru_insert k self0 =
     ebind (push_top k self0) (\<lambda>self1.
       if lru_len self1 \<le> lru_maxlen self1 then Inr (None, self1)
       else if lru_bottom self1 = lru_top self1
       then Inr (None, self1\<lparr>lru_bottom := None, lru_top := None\<rparr>)
       else
         (let a = lru_bottom self1
          in ebind (deref a self1) (\<lambda>na.
             let evicted = val na
             in ebind (set_down (up na) None self1) (\<lambda>self2.
                ebind (deref a self2) (\<lambda>na2.
                ebind (set_up a None (self2\<lparr>lru_bottom := up na2\<rparr>)) (\<lambda>self3.
                ebind (dict_del evicted (lru_cache self3)) (\<lambda>c.
                  Inr (Some evicted, self3\<lparr>lru_cache := c\<rparr>))))))))"

definition lru_put :: "'k \<Rightarrow> 'k lru \<Rightarrow> error + ('k option \<times> 'k lru)" where
  "lru_put k self =
     ebind (lru_get k self) (\<lambda>(found, self0).
       if found then Inr (None, self0) else lru_insert k self0)"

definition lru_clear :: "'k lru \<Rightarrow> 'k lru" where
  "lru_clear self = self\<lparr>lru_cache := [], lru_bottom := None, lru_top := None\<rparr>"

fun lru_call :: "'k call \<Rightarrow> 'k lru \<Rightarrow> error + 'k lru" where
  "lru_call (Get k) self = ebind (lru_get k self) (\<lambda>(found, self'). Inr self')"
| "lru_call (Put k) self = ebind (lru_put k self) (\<lambda>(evicted, self'). Inr self')"
| "lru_call Clear self = Inr (lru_clear self)"

fun lru_run :: "'k call list \<Rightarrow> 'k lru \<Rightarrow> error + 'k lru" where
  "lru_run [] self = Inr self"
| "lru_run (c # cs) self = ebind (lru_call c self) (lru_run cs)"

subsection \<open>Cache instances and method dispatch\<close>

text \<open>
  An instance of a subclass of \<open>Cache\<close> is the record of its fields, tagged with its
  class; calling a method on it selects the method of that class. The registry names
  the five classes \<open>NULL\<close>, \<open>LRU\<close>, \<open>LFU\<close>, \<open>FIFO\<close> and \<open>RAND\<close>. Every
  method takes and returns the state of the process-wide generator next to the
  instance, since \<open>RandCache.put\<close> draws from it.
\<close>

datatype 'k cache = Null | Lru "'k lru" | Lfu "'k lfu" | Fifo "'k fifo" | Rand "'k rand"

datatype policy = NULL | LRU | LFU | FIFO | RAND

fun new_cache :: "policy \<Rightarrow> int \<Rightarrow> error + 'k cache" where
  "new_cache NULL maxlen = Inr Null"
| "new_cache LRU maxlen = ebind (LruCache maxlen) (\<lambda>c. Inr (Lru c))"
| "new_cache LFU maxlen = ebind (LfuCache maxlen) (\<lambda>c. Inr (Lfu c))"
| "new_cache FIFO maxlen = ebind (FifoCache maxlen) (\<lambda>c. Inr (Fifo c))"
| "new_cache RAND maxlen = ebind (RandCache maxlen) (\<lambda>c. Inr (Rand c))"

fun cache_len :: "'k cache \<Rightarrow> int" where
  "cache_len Null = null_len"
| "cache_len (Lru c) = lru_len c"
| "cache_len (Lfu c) = lfu_len c"
| "cache_len (Fifo c) = fifo_len c"
| "cache_len (Rand c) = randcache_len c"

fun cache_maxlen :: "'k cache \<Rightarrow> int" where
  "cache_maxlen Null = 0"
| "cache_maxlen (Lru c) = lru_maxlen c"
| "cache_maxlen (Lfu c) = lfu_maxlen c"
| "cache_maxlen (Fifo c) = fifo_maxlen c"
| "cache_maxlen (Rand c) = rand_maxlen c"

fun cache_dump :: "'k cache \<Rightarrow> (error + 'k list) option" where
  "cache_dump Null = Some (Inr null_dump)"
| "cache_dump (Lru c) = lru_dump c"
| "cache_dump (Lfu c) = Some (Inr (lfu_dump c))"
| "cache_dump (Fifo c) = Some (Inr (fifo_dump c))"
| "cache_dump (Rand c) = Some (Inr (randcache_dump c))"

fun cache_has :: "'k \<Rightarrow> 'k cache \<Rightarrow> bool" where
  "cache_has k Null = null_has k"
| "cache_has k (Lru c) = lru_has k c"
| "cache_has k (Lfu c) = lfu_has k c"
| "cache_has k (Fifo c) = fifo_has k c"
| "cache_has k (Rand c) = randcache_has k c"

fun cache_get :: "'k \<Rightarrow> 'g \<times> 'k cache \<Rightarrow> error + (bool \<times> 'g \<times> 'k cache)" where
  "cache_get k (g, Null) = Inr (null_get k, g, Null)"
| "cache_get k (g, Lru c) = ebind (lru_get k c) (\<lambda>(found, c'). Inr (found, g, Lru c'))"
| "cache_get k (g, Lfu c) = ebind (lfu_get k c) (\<lambda>(found, c'). Inr (found, g, Lfu c'))"
| "cache_get k (g, Fifo c) = Inr (fifo_get k c, g, Fifo c)"
| "cache_get k (g, Rand c) = Inr (randcache_get k c, g, Rand c)"

fun cache_put ::
  "('g, 'sd) random_module \<Rightarrow> 'k \<Rightarrow> 'g \<times> 'k cache \<Rightarrow> error + ('k option \<times> 'g \<times> 'k cache)" where
  "cache_put R k (g, Null) = Inr (null_put k, g, Null)"
| "cache_put R k (g, Lru c) = ebind (lru_put k c) (\<lambda>(evicted, c'). Inr (evicted, g, Lru c'))"
| "cache_put R k (g, Lfu c) = ebind (lfu_put k c) (\<lambda>(evicted, c'). Inr (evicted, g, Lfu c'))"
| "cache_put R k (g, Fifo c) = ebind (fifo_put k c) (\<lambda>(evicted, c'). Inr (evicted, g, Fifo c'))"
| "cache_put R k (g, Rand c) =
     ebind (randcache_put R k (g, c)) (\<lambda>(evicted, g', c'). Inr (evicted, g', Rand c'))"

fun cache_clear :: "'g \<times> 'k cache \<Rightarrow> 'g \<times> 'k cache" where
  "cache_clear (g, Null) = (g, Null)"
| "cache_clear (g, Lru c) = (g, Lru (lru_clear c))"
| "cache_clear (g, Lfu c) = (g, Lfu (lfu_clear c))"
| "cache_clear (g, Fifo c) = (g, Fifo (fifo_clear c))"
| "cache_clear (g, Rand c) = (g, Rand (randcache_clear c))"

fun cache_call ::
  "('g, 'sd) random_module \<Rightarrow> 'k call \<Rightarrow> 'g \<times> 'k cache \<Rightarrow> error + ('g \<times> 'k cache)" where
  "cache_call R (Get k) w = ebind (cache_get k w) (\<lambda>(found, w'). Inr w')"
| "cache_call R (Put k) w = ebind (cache_put R k w) (\<lambda>(evicted, w'). Inr w')"
| "cache_call R Clear w = Inr (cache_clear w)"

fun cache_run ::
  "('g, 'sd) random_module \<Rightarrow> 'k call list \<Rightarrow> 'g \<times> 'k cache \<Rightarrow> error + ('g \<times> 'k cache)" where
  "cache_run R [] w = Inr w"
| "cache_run R (c # cs) w = ebind (cache_call R c w) (cache_run R cs)"

text \<open>
  What a client can observe of an instance: the result of a call, and the results of
  \<open>has\<close>, \<open>len\<close> and \<open>dump\<close>. A sequence of them stops at the first that
  raises, or that does not return.
\<close>

datatype 'k query = Call "'k call" | Has 'k | Len | Dump

datatype 'k answer =
  Found bool | Evicted "'k option" | Cleared | Member bool | Size int | Snapshot "'k list"

fun cache_query ::
  "('g, 'sd) random_module \<Rightarrow> 'k query \<Rightarrow> 'g \<times> 'k cache \<Rightarrow>
     (error + ('k answer \<times> 'g \<times> 'k cache)) option" where
  "cache_query R (Call (Get k)) w =
     Some (ebind (cache_get k w) (\<lambda>(found, w'). Inr (Found found, w')))"
| "cache_query R (Call (Put k)) w =
     Some (ebind (cache_put R k w) (\<lambda>(evicted, w'). Inr (Evicted evicted, w')))"
| "cache_query R (Call Clear) w = Some (Inr (Cleared, cache_clear w))"
| "cache_query R (Has k) w = Some (Inr (Member (cache_has k (snd w)), w))"
| "cache_query R Len w = Some (Inr (Size (cache_len (snd w)), w))"
| "cache_query R Dump w =
     map_option (\<lambda>r. ebind r (\<lambda>ks. Inr (Snapshot ks, w))) (cache_dump (snd w))"

fun cache_answers ::
  "('g, 'sd) random_module \<Rightarrow> 'k query list \<Rightarrow> 'g \<times> 'k cache \<Rightarrow>
     (error + 'k answer) option list" where
  "cache_answers R [] w = []"
| "cache_answers R (q # qs) w =
     (case cache_query R q w of
        None \<Rightarrow> [None]
      | Some (Inl e) \<Rightarrow> [Some (Inl e)]
      | Some (Inr (a, w')) \<Rightarrow> Some (Inr a) # cache_answers R qs w')"

subsection \<open>The wrappers\<close>

text \<open>
  Both wrappers first test \<open>isinstance(cache, Cache)\<close>. The argument is an instance
  of one of the five classes, as its constructor and its methods have left it
  (\<open>Cache\<close>), or an object that is not an instance of \<open>Cache\<close> (\<open>Other\<close>). An
  instance that a wrapper has already modified is not among the arguments modelled:
  its replaced methods are closures, which \<open>copy.deepcopy\<close> does not copy, and they
  keep working on the instance they were made for.
\<close>

datatype 'c pyobj = Cache 'c | Other

text \<open>
  \<open>copy.deepcopy\<close> returns an equal instance that shares nothing with the original:
  in this model, the same value. It copies recursively and raises
  \<open>RecursionError\<close> when the recursion limit of the interpreter stops it, as it does
  on an \<open>LruCache\<close> with a long chain of nodes, where each node is copied inside the
  copy of its neighbour. Which instances it can copy depends on the interpreter: that
  is the parameter \<open>can_copy\<close>.
\<close>

definition deepcopy :: "('c \<Rightarrow> bool) \<Rightarrow> 'c \<Rightarrow> error + 'c" where
  "deepcopy can_copy x = (if can_copy x then Inr x else Inl RecursionError)"


definition rand_put ::
  "('g, 'sd) random_module \<Rightarrow> real \<Rightarrow> ('k \<Rightarrow> 'g \<times> 'c \<Rightarrow> error + ('r option \<times> 'g \<times> 'c)) \<Rightarrow>
   'k \<Rightarrow> 'g \<times> 'c \<Rightarrow> error + ('r option \<times> 'g \<times> 'c)" where
  "rand_put R p put k = (\<lambda>(g, c).
     let (u, g') = random R g
     in if u < p then put k (g', c) else Inr (None, g', c))"

text \<open>
  The keys and the values of a key-value cache are tested for truth (\<open>if evicted:\<close>
  in \<open>kv_put\<close>, and \<open>if self.get(k):\<close> in \<open>LruCache.put\<close> once \<open>get\<close> returns
  values), so they are Python values: integers and strings here. \<open>0\<close> and the empty
  string are false, as \<open>None\<close> is.
\<close>

datatype pykey = KInt int | KStr string

fun truthy :: "pykey \<Rightarrow> bool" where
  "truthy (KInt n) = (n \<noteq> 0)"
| "truthy (KStr s) = (s \<noteq> [])"

text \<open>
  \<open>keyval_cache(cache)\<close> deep-copies the instance, gives the copy the empty
  dictionary \<open>_vals\<close> and replaces \<open>put\<close>, \<open>get\<close>, \<open>dump\<close> and \<open>clear\<close> by
  closures over the former bound methods \<open>k_put\<close>, \<open>k_get\<close>, \<open>k_dump\<close> and
  \<open>k_clear\<close>. The former methods work on \<open>w\<close>, all that the methods of the class
  can reach (the fields of the copy and the generator); the new ones on \<open>w\<close> and
  \<open>_vals\<close>.
\<close>

definition keyval_cache ::
  "('k cache \<Rightarrow> bool) \<Rightarrow> 'k cache pyobj \<Rightarrow> error + ('k cache \<times> (pykey, pykey) dict)" where
  "keyval_cache can_copy cache =
     (case cache of
        Other \<Rightarrow> Inl TypeError
      | Cache c \<Rightarrow> ebind (deepcopy can_copy c) (\<lambda>c'. Inr (c', [])))"

definition kv_get ::
  "(pykey \<Rightarrow> 'w \<Rightarrow> error + (bool \<times> 'w)) \<Rightarrow> pykey \<Rightarrow>
   'w \<times> (pykey, 'v) dict \<Rightarrow> error + ('v option \<times> 'w \<times> (pykey, 'v) dict)" where
  "kv_get k_get k = (\<lambda>(w, vals).
     ebind (k_get k w) (\<lambda>(found, w').
       if found then
         (case map_of vals k of None \<Rightarrow> Inl KeyError | Some v \<Rightarrow> Inr (Some v, w', vals))
       else Inr (None, w', vals)))"

text \<open>
  The closure variable \<open>k_put\<close> holds \<open>bound_put\<close>: the method \<open>put\<close> of the
  class, bound to the copy, and the copy is
  the instance whose \<open>get\<close> is now \<open>kv_get\<close>. Of the five classes only
  \<open>LruCache.put\<close> calls a method that \<open>keyval_cache\<close> replaces: its
  \<open>self.get(k)\<close> is \<open>kv_get(k)\<close>, which returns the value stored for \<open>k\<close>, or
  \<open>None\<close>, and \<open>put\<close> tests the truth of that. So it reads \<open>_vals\<close>. The
  methods of the other classes call \<open>self.has\<close> only, which is not replaced.
\<close>

definition lru_k_get :: "'k \<Rightarrow> 'g \<times> 'k lru \<Rightarrow> error + (bool \<times> 'g \<times> 'k lru)" where
  "lru_k_get k = (\<lambda>(g, self). ebind (lru_get k self) (\<lambda>(found, self'). Inr (found, g, self')))"

fun bound_put ::
  "('g, 'sd) random_module \<Rightarrow> pykey \<Rightarrow> ('g \<times> pykey cache) \<times> (pykey, pykey) dict \<Rightarrow>
   error + (pykey option \<times> ('g \<times> pykey cache) \<times> (pykey, pykey) dict)" where
  "bound_put R k ((g, Lru self), vals) =
     ebind (kv_get lru_k_get k ((g, self), vals)) (\<lambda>(r, (g', self0), vals').
       if (case r of None \<Rightarrow> False | Some v \<Rightarrow> truthy v) then Inr (None, (g', Lru self0), vals')
       else ebind (lru_insert k self0) (\<lambda>(evicted, self1).
              Inr (evicted, (g', Lru self1), vals')))"
| "bound_put R k ((g, c), vals) =
     ebind (cache_put R k (g, c)) (\<lambda>(evicted, w'). Inr (evicted, w', vals))"

definition kv_put ::
  "(pykey \<Rightarrow> 'w \<times> (pykey, 'v) dict \<Rightarrow> error + (pykey option \<times> 'w \<times> (pykey, 'v) dict)) \<Rightarrow>
   pykey \<Rightarrow> 'v \<Rightarrow> 'w \<times> (pykey, 'v) dict \<Rightarrow>
   error + ((pykey \<times> 'v) option \<times> 'w \<times> (pykey, 'v) dict)" where
  "kv_put k_put k v = (\<lambda>(w, vals).
     let vals1 = AList.update k v vals
     in ebind (k_put k (w, vals1)) (\<lambda>(evicted, w', vals2).
          case evicted of
            None \<Rightarrow> Inr (None, w', vals2)
          | Some e \<Rightarrow>
              if truthy e then
                (case map_of vals2 e of
                   None \<Rightarrow> Inl KeyError
                 | Some val' \<Rightarrow> Inr (Some (e, val'), w', AList.delete e vals2))
              else Inr (None, w', vals2)))"



definition kv_clear :: "('w \<Rightarrow> 'w) \<Rightarrow> 'w \<times> (pykey, 'v) dict \<Rightarrow> 'w \<times> (pykey, 'v) dict" where
  "kv_clear k_clear = (\<lambda>(w, vals). (k_clear w, []))"

text \<open>
  The calls a client makes on a key-value cache, and sequences of them on the copy
  that \<open>keyval_cache\<close> returns: \<open>k_get\<close> and \<open>k_clear\<close> are the methods of the
  class.
\<close>

datatype kv_call = KvGet pykey | KvPut pykey pykey | KvClear

fun kv_step ::
  "('g, 'sd) random_module \<Rightarrow> kv_call \<Rightarrow> ('g \<times> pykey cache) \<times> (pykey, pykey) dict \<Rightarrow>
   error + (('g \<times> pykey cache) \<times> (pykey, pykey) dict)" where
  "kv_step R (KvGet k) st = ebind (kv_get cache_get k st) (\<lambda>(v, st'). Inr st')"
| "kv_step R (KvPut k v) st = ebind (kv_put (bound_put R) k v st) (\<lambda>(evicted, st'). Inr st')"
| "kv_step R KvClear st = Inr (kv_clear cache_clear st)"

fun kv_run ::
  "('g, 'sd) random_module \<Rightarrow> kv_call list \<Rightarrow> ('g \<times> pykey cache) \<times> (pykey, pykey) dict \<Rightarrow>
   error + (('g \<times> pykey cache) \<times> (pykey, pykey) dict)" where
  "kv_run R [] st = Inr st"
| "kv_run R (cl # cls) st = ebind (kv_step R cl st) (kv_run R cls)"

text \<open>
  A sequence of \<open>put\<close> calls with the list of what they returned, and what a caller
  observes of a result: the value returned and the cache, not the state of the generator.
\<close>

fun run_puts :: "('k \<Rightarrow> 'w \<Rightarrow> error + ('r \<times> 'w)) \<Rightarrow> 'k list \<Rightarrow> 'w \<Rightarrow> error + ('r list \<times> 'w)" where
  "run_puts put [] w = Inr ([], w)"
| "run_puts put (k # ks) w =
     ebind (put k w) (\<lambda>(r, w'). ebind (run_puts put ks w') (\<lambda>(rs, w''). Inr (r # rs, w'')))"

definition observed :: "error + ('r \<times> 'g \<times> 'c) \<Rightarrow> error + ('r \<times> 'c)" where
  "observed m = ebind m (\<lambda>(r, g, c). Inr (r, c))"



section \<open>Invariants of the reachable states\<close>

text \<open>
  \<open>LfuCache\<close>: a key occurs once in the dictionary, no two keys carry the same
  sequence number, and no sequence number is beyond the counter \<open>t\<close>.
\<close>

definition lfu_inv :: "'k lfu \<Rightarrow> bool" where
  "lfu_inv s = (distinct (map fst (lfu_cache s)) \<and> distinct (map (snd \<circ> snd) (lfu_cache s)) \<and>
     (\<forall>x \<in> set (lfu_cache s). snd (snd x) \<le> lfu_t s))"

text \<open>
  \<open>LruCache\<close>: \<open>chain h p as ks q\<close> says that the references \<open>as\<close> hold, in
  the store \<open>h\<close>, nodes with the values \<open>ks\<close>, each with the next one as
  \<open>down\<close> and the one before as \<open>up\<close>; the first has \<open>up = p\<close> and the last
  \<open>down = q\<close>.
\<close>

fun chain :: "(ref \<rightharpoonup> 'k node) \<Rightarrow> ref option \<Rightarrow> ref list \<Rightarrow> 'k list \<Rightarrow> ref option \<Rightarrow> bool" where
  "chain h p [] [] q = True"
| "chain h p (a # as) (k # ks) q =
     (case h a of
        None \<Rightarrow> False
      | Some n \<Rightarrow> val n = k \<and> up n = p \<and> down n = (case as of [] \<Rightarrow> q | b # _ \<Rightarrow> Some b) \<and>
          chain h (Some a) as ks q)"
| "chain h p [] (k # ks) q = False"
| "chain h p (a # as) [] q = False"

text \<open>
  \<open>lru_rep s as ks\<close>: the instance \<open>s\<close> holds the keys \<open>ks\<close>, most recent
  first, in the nodes \<open>as\<close>: the nodes form a chain from \<open>top\<close> to \<open>bottom\<close>,
  and the dictionary maps each key to its node.
\<close>

definition lru_rep :: "'k lru \<Rightarrow> ref list \<Rightarrow> 'k list \<Rightarrow> bool" where
  "lru_rep s as ks =
     (chain (lru_heap s) None as ks None \<and> distinct as \<and> distinct ks \<and>
      (\<forall>a \<in> set as. a < lru_next s) \<and>
      lru_top s = (case as of [] \<Rightarrow> None | a # _ \<Rightarrow> Some a) \<and>
      lru_bottom s = (if as = [] then None else Some (last as)) \<and>
      distinct (map fst (lru_cache s)) \<and> set (lru_cache s) = set (zip ks as))"

text \<open>The invariant: some list of at most \<open>maxlen\<close> keys is represented.\<close>

definition lru_inv :: "'k lru \<Rightarrow> bool" where
  "lru_inv s = (\<exists>as ks. lru_rep s as ks \<and> 1 \<le> lru_maxlen s \<and> int (length ks) \<le> lru_maxlen s)"

text \<open>
  \<open>FifoCache\<close>: the set and the deque hold the same keys, once each.
  \<open>RandCache\<close>: the first \<open>len\<close> slots of the array hold the keys of the set,
  once each. Both: the size is at most \<open>maxlen\<close>, which is positive.
\<close>

definition fifo_inv :: "'k fifo \<Rightarrow> bool" where
  "fifo_inv s =
     (distinct (fifo_cache s) \<and> distinct (fifo_d s) \<and> set (fifo_cache s) = set (fifo_d s) \<and>
      1 \<le> fifo_maxlen s \<and> int (length (fifo_cache s)) \<le> fifo_maxlen s)"

definition rand_inv :: "'k rand \<Rightarrow> bool" where
  "rand_inv s =
     (distinct (rand_cache s) \<and> 1 \<le> rand_maxlen s \<and> int (length (rand_a s)) = rand_maxlen s \<and>
      int (length (rand_cache s)) \<le> rand_maxlen s \<and>
      (\<exists>ps. take (length (rand_cache s)) (rand_a s) = map Some ps \<and> distinct ps \<and>
            set ps = set (rand_cache s)))"

text \<open>The class of an instance, and the invariant of its class.\<close>

fun policy_of :: "'k cache \<Rightarrow> policy" where
  "policy_of Null = NULL"
| "policy_of (Lru c) = LRU"
| "policy_of (Lfu c) = LFU"
| "policy_of (Fifo c) = FIFO"
| "policy_of (Rand c) = RAND"

fun cache_inv :: "'k cache \<Rightarrow> bool" where
  "cache_inv Null = True"
| "cache_inv (Lru c) = lru_inv c"
| "cache_inv (Lfu c) = (lfu_inv c \<and> 1 \<le> lfu_maxlen c \<and> lfu_len c \<le> lfu_maxlen c)"
| "cache_inv (Fifo c) = fifo_inv c"
| "cache_inv (Rand c) = rand_inv c"

text \<open>
  \<open>keyval_cache\<close> over a policy other than \<open>NULL\<close>: the keys of \<open>_vals\<close> are
  the resident keys, and every resident key is true in Python's sense.
\<close>

definition kv_inv :: "pykey cache \<Rightarrow> (pykey, 'v) dict \<Rightarrow> bool" where
  "kv_inv c vals =
     (cache_inv c \<and> policy_of c \<noteq> NULL \<and> fst ` set vals = {k. cache_has k c} \<and>
      (\<forall>k. cache_has k c \<longrightarrow> truthy k))"

text \<open>
  Two instances that answer alike. For \<open>LfuCache\<close>: the same dictionary up to a
  shift \<open>d\<close> of every sequence number and of the counter \<open>t\<close>. For
  \<open>RandCache\<close>: the same set, and arrays that agree on the first \<open>len\<close> slots.
  For \<open>LruCache\<close>: linked lists that hold the same keys in the same order. For
  \<open>FifoCache\<close> and \<open>NullCache\<close>: the same fields.
\<close>

definition lfu_shift :: "int \<Rightarrow> 'k \<times> int \<times> int \<Rightarrow> 'k \<times> int \<times> int" where
  "lfu_shift d = (\<lambda>(k, f, t). (k, f, t + d))"

definition lfu_sim :: "int \<Rightarrow> 'k lfu \<Rightarrow> 'k lfu \<Rightarrow> bool" where
  "lfu_sim d a b =
     (lfu_maxlen a = lfu_maxlen b \<and> lfu_t a = lfu_t b + d \<and>
      lfu_cache a = map (lfu_shift d) (lfu_cache b))"

definition rand_sim :: "'k rand \<Rightarrow> 'k rand \<Rightarrow> bool" where
  "rand_sim a b =
     (rand_cache a = rand_cache b \<and> rand_maxlen a = rand_maxlen b \<and>
      length (rand_a a) = length (rand_a b) \<and> int (length (rand_a a)) = rand_maxlen a \<and>
      take (length (rand_cache a)) (rand_a a) = take (length (rand_cache a)) (rand_a b))"

definition lru_sim :: "'k lru \<Rightarrow> 'k lru \<Rightarrow> bool" where
  "lru_sim a b =
     (\<exists>as bs ks. lru_rep a as ks \<and> lru_rep b bs ks \<and> lru_maxlen a = lru_maxlen b \<and>
        1 \<le> lru_maxlen a)"

fun cache_sim :: "'k cache \<Rightarrow> 'k cache \<Rightarrow> bool" where
  "cache_sim Null Null = True"
| "cache_sim (Lru a) (Lru b) = lru_sim a b"
| "cache_sim (Lfu a) (Lfu b) = (\<exists>d. lfu_sim d a b)"
| "cache_sim (Fifo a) (Fifo b) = (a = b)"
| "cache_sim (Rand a) (Rand b) = rand_sim a b"
| "cache_sim a b = False"

section \<open>Properties\<close>

subsection \<open>Python values\<close>


lemma min_from_mem: "min_from key m xs \<in> set (m # xs)"
  by (induction xs arbitrary: m) auto

lemma min_from_le_init: "key (min_from key m xs) \<le> key m"
proof (induction xs arbitrary: m)
  case Nil
  then show ?case by simp
next
  case (Cons x xs)
  show ?case using Cons.IH[of "if key x < key m then x else m"]
    by (auto split: if_splits)
qed

lemma min_from_le: "y \<in> set (m # xs) \<Longrightarrow> key (min_from key m xs) \<le> key y"
proof (induction xs arbitrary: m)
  case Nil
  then show ?case by simp
next
  case (Cons x xs)
  let ?m' = "if key x < key m then x else m"
  have a: "key (min_from key ?m' xs) \<le> key ?m'" by (rule min_from_le_init)
  show ?case
  proof (cases "y \<in> set xs")
    case True
    then show ?thesis using Cons.IH[of ?m'] by simp
  next
    case False
    then have "y = m \<or> y = x" using Cons.prems by auto
    then show ?thesis using a by (auto split: if_splits)
  qed
qed

lemma min_from_last:
  "\<forall>y \<in> set (m # xs). key z < key y \<Longrightarrow> min_from key m (xs @ [z]) = z"
  by (induction xs arbitrary: m) auto

lemma update_absent: "k \<notin> fst ` set d \<Longrightarrow> AList.update k v d = d @ [(k, v)]"
  by (induction d) auto

lemma delete_appended: "k \<notin> fst ` set d \<Longrightarrow> AList.delete k (d @ [(k, v)]) = d"
  by (induction d) auto

lemma py_min_nonempty:
  "xs \<noteq> [] \<Longrightarrow> \<exists>m. py_min key xs = Inr m \<and> m \<in> set xs \<and> (\<forall>y \<in> set xs. key m \<le> key y)"
  using min_from_mem[of key] min_from_le[of _ _ _ key]
  by (cases xs) (auto simp: py_min_def simp del: min_from.simps)

subsection \<open>LfuCache: the invariant holds in every reachable state\<close>

lemma map_of_has: "dict_has k d \<Longrightarrow> \<exists>v. map_of d k = Some v"
  by (induction d) (auto simp: dict_has_def)

lemma update_keeps_seq:
  "map_of d k = Some (f, t) \<Longrightarrow> map (snd \<circ> snd) (AList.update k (f', t) d) = map (snd \<circ> snd) d"
  by (induction d) (auto split: if_splits)

lemma update_set_seq:
  "map_of d k = Some (f, t) \<Longrightarrow> x \<in> set (AList.update k (f', t) d) \<Longrightarrow> \<exists>y \<in> set d. snd (snd y) = snd (snd x)"
  by (induction d) (auto split: if_splits)

lemma lfu_get_inv:
  assumes "lfu_inv s"
  shows "\<exists>s'. lfu_get k s = Inr (lfu_has k s, s') \<and> lfu_inv s' \<and> lfu_maxlen s' = lfu_maxlen s"
proof (cases "lfu_has k s")
  case False
  then show ?thesis using assms by (simp add: lfu_get_def)
next
  case True
  then obtain f t where ft: "map_of (lfu_cache s) k = Some (f, t)"
    using map_of_has[of k "lfu_cache s"] by (auto simp: lfu_has_def)
  have "lfu_inv (s\<lparr>lfu_cache := AList.update k (f + 1, t) (lfu_cache s)\<rparr>)"
    using assms update_keeps_seq[OF ft] update_set_seq[OF ft]
    by (fastforce simp: lfu_inv_def distinct_update)
  then show ?thesis using True ft by (simp add: lfu_get_def)
qed

lemma distinct_map_delete: "distinct (map f d) \<Longrightarrow> distinct (map f (AList.delete k d))"
  by (simp add: AList.delete_eq distinct_map_filter)

lemma set_delete_subset: "set (AList.delete k d) \<subseteq> set d"
  by (auto simp: AList.delete_eq)

lemma lfu_put_inv:
  assumes "lfu_inv s"
  shows "\<exists>e s'. lfu_put k s = Inr (e, s') \<and> lfu_inv s' \<and> lfu_maxlen s' = lfu_maxlen s"
proof (cases "lfu_has k s")
  case True
  then show ?thesis using assms by (simp add: lfu_put_def)
next
  case False
  let ?d = "lfu_cache s @ [(k, (1::int, lfu_t s + 1))]"
  have abs: "k \<notin> fst ` set (lfu_cache s)"
    using False by (simp add: lfu_has_def dict_has_def)
  have upd: "AList.update k (1, lfu_t s + 1) (lfu_cache s) = ?d"
    using abs by (rule update_absent)
  have inv2: "lfu_inv (s\<lparr>lfu_t := lfu_t s + 1, lfu_cache := ?d\<rparr>)"
    using assms abs by (fastforce simp: lfu_inv_def)
  obtain m where m: "py_min snd ?d = Inr m"
    using py_min_nonempty[of ?d snd] by auto
  have i1: "distinct (map fst (AList.delete (fst m) ?d))"
    using inv2 by (simp only: lfu_inv_def) (simp add: distinct_delete del: map_append)
  have i2: "distinct (map (snd \<circ> snd) (AList.delete (fst m) ?d))"
    using inv2 by (simp only: lfu_inv_def) (simp add: distinct_map_delete del: map_append)
  have i3: "\<forall>x \<in> set (AList.delete (fst m) ?d). snd (snd x) \<le> lfu_t s + 1"
    using inv2 set_delete_subset[of "fst m" ?d] by (simp only: lfu_inv_def) fastforce
  have "lfu_inv (s\<lparr>lfu_t := lfu_t s + 1, lfu_cache := AList.delete (fst m) ?d\<rparr>)"
    using i1 i2 i3 by (simp add: lfu_inv_def)
  then show ?thesis using False inv2 m upd
    by (cases m) (simp add: lfu_put_def Let_def)
qed


lemma lfu_call_inv:
  assumes "lfu_inv s"
  shows "\<exists>s'. lfu_call c s = Inr s' \<and> lfu_inv s' \<and> lfu_maxlen s' = lfu_maxlen s"
proof (cases c)
  case (Get k)
  then show ?thesis using lfu_get_inv[OF assms, of k] by auto
next
  case (Put k)
  then show ?thesis using lfu_put_inv[OF assms, of k] by auto
next
  case Clear
  then show ?thesis using assms by (simp add: lfu_clear_def lfu_inv_def)
qed

lemma lfu_run_inv:
  "lfu_inv s \<Longrightarrow> \<exists>s'. lfu_run cs s = Inr s' \<and> lfu_inv s' \<and> lfu_maxlen s' = lfu_maxlen s"
proof (induction cs arbitrary: s)
  case Nil
  then show ?case by simp
next
  case (Cons c cs)
  obtain s1 where s1: "lfu_call c s = Inr s1" "lfu_inv s1" "lfu_maxlen s1 = lfu_maxlen s"
    using lfu_call_inv[OF Cons.prems, of c] by auto
  show ?case using Cons.IH[OF s1(2)] s1 by auto
qed

lemma LfuCache_inv: "LfuCache C = Inr s \<Longrightarrow> lfu_inv s \<and> lfu_maxlen s = C \<and> 0 < C"
  by (auto simp: LfuCache_def lfu_inv_def Let_def split: if_splits)

text \<open>
  Claim C2. In a state \<open>s\<close> that a fresh \<open>LfuCache\<close> reaches by any calls,
  when \<open>put(k)\<close> of an absent key makes the size exceed \<open>maxlen\<close>, it returns
  a key \<open>e\<close> that is resident after the insertion of \<open>k\<close> with the tuple
  \<open>(1, t + 1)\<close> (the residents of \<open>s\<close> and \<open>k\<close> itself), whose tuple
  \<open>(f, t)\<close> is strictly below the tuple of every other resident in the
  lexicographic order (fewer hits, or as many hits and an older sequence number), and
  it removes exactly \<open>e\<close>.
\<close>

theorem lfu_put_evicts_min:
  assumes "LfuCache C = Inr s0" and "lfu_run cs s0 = Inr s"
    and "\<not> lfu_has k s" and "lfu_len s + 1 > lfu_maxlen s"
  shows "\<exists>e f t s'. lfu_put k s = Inr (Some e, s') \<and>
           (e, (f, t)) \<in> set (lfu_cache s @ [(k, (1, lfu_t s + 1))]) \<and>
           (\<forall>(k', (f', t')) \<in> set (lfu_cache s @ [(k, (1, lfu_t s + 1))]).
              k' \<noteq> e \<longrightarrow> f < f' \<or> (f = f' \<and> t < t')) \<and>
           lfu_cache s' = AList.delete e (lfu_cache s @ [(k, (1, lfu_t s + 1))]) \<and>
           \<not> lfu_has e s'"
proof -
  let ?d = "lfu_cache s @ [(k, (1::int, lfu_t s + 1))]"
  have inv: "lfu_inv s"
    using lfu_run_inv[of s0 cs] LfuCache_inv[OF assms(1)] assms(2) by auto
  have abs: "k \<notin> fst ` set (lfu_cache s)"
    using assms(3) by (simp add: lfu_has_def dict_has_def)
  have upd: "AList.update k (1, lfu_t s + 1) (lfu_cache s) = ?d"
    using abs by (rule update_absent)
  have dist: "distinct (map (snd \<circ> snd) ?d)"
    using inv by (fastforce simp: lfu_inv_def)
  obtain m where m: "py_min snd ?d = Inr m" "m \<in> set ?d" "\<forall>y \<in> set ?d. snd m \<le> snd y"
    using py_min_nonempty[of ?d snd] by auto
  obtain e f t where eft: "m = (e, (f, t))" by (cases m) auto
  have strict: "f < f' \<or> (f = f' \<and> t < t')" if "(k', (f', t')) \<in> set ?d" "k' \<noteq> e" for k' f' t'
  proof -
    have le: "(f, t) \<le> (f', t')" using m(3) that(1) eft by force
    have "t \<noteq> t'"
    proof
      assume "t = t'"
      then have "(snd \<circ> snd) (e, (f, t)) = (snd \<circ> snd) (k', (f', t'))" by simp
      then have "(e, (f, t)) = (k', (f', t'))"
        using dist m(2) that(1) eft distinct_map[of "snd \<circ> snd" ?d]
        by (meson inj_onD)
      then show False using that(2) by simp
    qed
    then show ?thesis using le by (auto simp: less_eq_prod_def)
  qed
  have put: "lfu_put k s = Inr (Some e, s\<lparr>lfu_t := lfu_t s + 1, lfu_cache := AList.delete e ?d\<rparr>)"
    using assms(3,4) m(1) eft upd by (simp add: lfu_put_def lfu_len_def Let_def)
  have gone: "\<not> lfu_has e (s\<lparr>lfu_t := lfu_t s + 1, lfu_cache := AList.delete e ?d\<rparr>)"
    by (auto simp: lfu_has_def dict_has_def AList.delete_eq)
  have mem: "(e, (f, t)) \<in> set ?d" using m(2) eft by simp
  have all: "\<forall>(k', (f', t')) \<in> set ?d. k' \<noteq> e \<longrightarrow> f < f' \<or> (f = f' \<and> t < t')"
    using strict by blast
  have del: "lfu_cache (s\<lparr>lfu_t := lfu_t s + 1, lfu_cache := AList.delete e ?d\<rparr>) = AList.delete e ?d"
    by simp
  show ?thesis using put mem all del gone by blast
qed

theorem lfu_put_evicts_min_witness:
  "LfuCache 2 = Inr (\<lparr>lfu_cache = [], lfu_t = 0, lfu_maxlen = 2\<rparr> :: string lfu) \<and>
   lfu_run [Put ''A'', Put ''B'', Get ''A''] \<lparr>lfu_cache = [], lfu_t = 0, lfu_maxlen = 2\<rparr> =
     Inr \<lparr>lfu_cache = [(''A'', (2, 1)), (''B'', (1, 2))], lfu_t = 2, lfu_maxlen = 2\<rparr> \<and>
   (\<exists>s'. lfu_put ''C'' \<lparr>lfu_cache = [(''A'', (2, 1)), (''B'', (1, 2))], lfu_t = 2, lfu_maxlen = 2\<rparr>
       = Inr (Some ''B'', s'))"
proof -
  let ?init = "\<lparr>lfu_cache = [], lfu_t = 0, lfu_maxlen = 2\<rparr> :: string lfu"
  let ?st = "\<lparr>lfu_cache = [(''A'', (2, 1)), (''B'', (1, 2))], lfu_t = 2, lfu_maxlen = 2\<rparr> :: string lfu"
  have a: "LfuCache 2 = Inr ?init" by (simp add: LfuCache_def Let_def)
  have b: "lfu_run [Put ''A'', Put ''B'', Get ''A''] ?init = Inr ?st"
    by (simp add: lfu_put_def lfu_get_def lfu_has_def dict_has_def lfu_len_def py_min_def Let_def)
  have c: "\<not> lfu_has ''C'' ?st" by (simp add: lfu_has_def dict_has_def)
  have d: "lfu_len ?st + 1 > lfu_maxlen ?st" by (simp add: lfu_len_def)
  obtain e f t s' where r: "lfu_put ''C'' ?st = Inr (Some e, s')"
    "(e, (f, t)) \<in> set (lfu_cache ?st @ [(''C'', (1, lfu_t ?st + 1))])"
    "\<forall>(k', (f', t')) \<in> set (lfu_cache ?st @ [(''C'', (1, lfu_t ?st + 1))]).
        k' \<noteq> e \<longrightarrow> f < f' \<or> (f = f' \<and> t < t')"
    using lfu_put_evicts_min[OF a b c d] by blast
  have "e = ''B''" using r(2,3) by auto
  then show ?thesis using a b r(1) by blast
qed



text \<open>
  Claim C10. When the cache is full and every resident key has frequency at least 2,
  \<open>put(k)\<close> of an absent key returns \<open>k\<close> itself as the evicted key and leaves
  the dictionary as it was: the only change of the instance is the counter \<open>t\<close>,
  one higher, which \<open>k\<close> carried with frequency 1 while it was inserted.
\<close>

theorem lfu_put_self_evict:
  assumes "\<not> lfu_has k s" and "lfu_len s = lfu_maxlen s"
    and "\<forall>(k', f, t) \<in> set (lfu_cache s). 2 \<le> f"
  shows "lfu_put k s = Inr (Some k, s\<lparr>lfu_t := lfu_t s + 1\<rparr>)"
proof -
  let ?new = "(k, (1::int, lfu_t s + 1))"
  have abs: "k \<notin> fst ` set (lfu_cache s)"
    using assms(1) by (simp add: lfu_has_def dict_has_def)
  have lt: "\<forall>y \<in> set (lfu_cache s). snd ?new < snd y"
    using assms(3) by (auto simp: less_prod_def)
  have "py_min snd (lfu_cache s @ [?new]) = Inr ?new"
  proof (cases "lfu_cache s")
    case Nil
    then show ?thesis by (simp add: py_min_def)
  next
    case (Cons x xs)
    then show ?thesis using lt min_from_last[of x xs snd ?new]
      by (simp add: py_min_def)
  qed
  then show ?thesis using abs assms(1,2)
    by (simp add: lfu_put_def lfu_len_def update_absent delete_appended Let_def)
qed

theorem lfu_put_self_evict_witness:
  "lfu_put ''C'' \<lparr>lfu_cache = [(''A'', (2, 1)), (''B'', (3, 2))], lfu_t = 2, lfu_maxlen = 2\<rparr> =
     Inr (Some ''C'', \<lparr>lfu_cache = [(''A'', (2, 1)), (''B'', (3, 2))], lfu_t = 3, lfu_maxlen = 2\<rparr>)"
  using lfu_put_self_evict[of "''C''" "\<lparr>lfu_cache = [(''A'', (2, 1)), (''B'', (3, 2))], lfu_t = 2, lfu_maxlen = 2\<rparr>"]
  by (simp add: lfu_has_def dict_has_def lfu_len_def)

subsection \<open>LruCache: the linked list represents a list of keys\<close>

lemma chain_length: "chain h p as ks q \<Longrightarrow> length as = length ks"
  by (induction h p as ks q rule: chain.induct) (auto split: option.splits)

lemma chain_frame: "chain h p as ks q \<Longrightarrow> b \<notin> set as \<Longrightarrow> chain (h(b \<mapsto> n)) p as ks q"
  by (induction h p as ks q rule: chain.induct) (auto split: option.splits)

lemma chain_append:
  "length xs = length kx \<Longrightarrow>
   chain h p (xs @ ys) (kx @ ky) q =
     (chain h p xs kx (case ys of [] \<Rightarrow> q | b # _ \<Rightarrow> Some b) \<and>
      chain h (if xs = [] then p else Some (last xs)) ys ky q)"
proof (induction xs arbitrary: kx p)
  case Nil
  then show ?case by simp
next
  case (Cons a xs)
  then obtain k kx' where kx: "kx = k # kx'" "length xs = length kx'" by (cases kx) auto
  show ?case using Cons.IH[OF kx(2), of "Some a"] kx(1)
    by (cases xs; cases ys) (auto split: option.splits)
qed

lemma chain_set_down_last:
  "chain h p xs kx q \<Longrightarrow> xs \<noteq> [] \<Longrightarrow> distinct xs \<Longrightarrow>
   \<exists>n. h (last xs) = Some n \<and> chain (h(last xs \<mapsto> n\<lparr>down := q'\<rparr>)) p xs kx q'"
proof (induction h p xs kx q rule: chain.induct)
  case (2 h p a as k ks q)
  show ?case
  proof (cases as)
    case Nil
    then show ?thesis using 2 by (cases ks) (auto split: option.splits)
  next
    case (Cons b bs)
    then show ?thesis using 2 by (auto split: option.splits)
  qed
qed auto

lemma chain_set_up_first:
  "chain h p (a # ys) ky q \<Longrightarrow> a \<notin> set ys \<Longrightarrow>
   \<exists>n. h a = Some n \<and> chain (h(a \<mapsto> n\<lparr>up := p'\<rparr>)) p' (a # ys) ky q"
  by (cases ky) (auto split: option.splits intro: chain_frame)

lemma dump_loop_chain:
  "chain h p as ks None \<Longrightarrow>
   dump_loop h (case as of [] \<Rightarrow> None | a # _ \<Rightarrow> Some a) d = Some (Inr (d @ ks))"
proof (induction h p as ks "None :: ref option" arbitrary: d rule: chain.induct)
  case (1 h p)
  then show ?case by (simp add: dump_loop.simps)
next
  case (2 h p a as k ks)
  then show ?case by (subst dump_loop.simps) (auto split: option.splits list.splits)
qed auto

lemma rep_keys: "lru_rep s as ks \<Longrightarrow> fst ` set (lru_cache s) = set ks"
proof -
  assume r: "lru_rep s as ks"
  then have "length as = length ks" using chain_length by (auto simp: lru_rep_def)
  then have "fst ` set (zip ks as) = set ks"
    by (metis list.set_map map_fst_zip)
  then show ?thesis using r by (simp add: lru_rep_def)
qed

lemma rep_has: "lru_rep s as ks \<Longrightarrow> lru_has k s = (k \<in> set ks)"
  using rep_keys[of s as ks] by (simp add: lru_has_def dict_has_def)

lemma rep_len: "lru_rep s as ks \<Longrightarrow> lru_len s = int (length ks)"
proof -
  assume r: "lru_rep s as ks"
  then have l: "length as = length ks" using chain_length by (auto simp: lru_rep_def)
  have d1: "distinct (lru_cache s)" using r distinct_map by (auto simp: lru_rep_def)
  have d2: "distinct (zip ks as)" using r by (auto simp: lru_rep_def intro: distinct_zipI1)
  have "length (lru_cache s) = card (set (lru_cache s))" using d1 by (simp add: distinct_card)
  also have "\<dots> = card (set (zip ks as))" using r by (simp add: lru_rep_def)
  also have "\<dots> = length (zip ks as)" using d2 by (simp add: distinct_card)
  finally show ?thesis using l by (simp add: lru_len_def)
qed

lemma push_top_rep:
  assumes r: "lru_rep s as ks" and k: "k \<notin> set ks"
  shows "\<exists>s'. push_top k s = Inr s' \<and> lru_rep s' (lru_next s # as) (k # ks) \<and>
           lru_maxlen s' = lru_maxlen s"
proof -
  let ?a = "lru_next s"
  let ?h = "lru_heap s"
  let ?h1 = "?h(?a \<mapsto> Node (lru_top s) k)"
  have fresh: "?a \<notin> set as" using r by (auto simp: lru_rep_def)
  have ch: "chain ?h None as ks None" using r by (simp add: lru_rep_def)
  have ch1: "chain ?h1 None as ks None" using ch fresh by (rule chain_frame)
  have absent: "k \<notin> fst ` set (lru_cache s)" using rep_keys[OF r] k by simp
  have upd: "AList.update k ?a (lru_cache s) = lru_cache s @ [(k, ?a)]"
    using absent by (rule update_absent)
  have dk: "distinct (map fst (lru_cache s @ [(k, ?a)]))"
    using r absent by (simp add: lru_rep_def)
  have sk: "set (lru_cache s @ [(k, ?a)]) = set (zip (k # ks) (?a # as))"
    using r by (auto simp: lru_rep_def)
  have bound: "\<forall>a \<in> set (?a # as). a < Suc ?a" using r by (auto simp: lru_rep_def)
  have dist: "distinct (?a # as)" "distinct (k # ks)" using r fresh k by (auto simp: lru_rep_def)
  show ?thesis
  proof (cases as)
    case Nil
    then have ks: "ks = []" using chain_length[OF ch] by simp
    have top: "lru_top s = None" "lru_bottom s = None" using r Nil by (auto simp: lru_rep_def)
    let ?s' = "s\<lparr>lru_heap := ?h1, lru_next := Suc ?a, lru_bottom := Some ?a, lru_top := Some ?a,
                  lru_cache := lru_cache s @ [(k, ?a)]\<rparr>"
    have p: "push_top k s = Inr ?s'"
      using top upd by (simp add: push_top_def alloc_def)
    have "chain ?h1 None [?a] [k] None" by (simp add: Node_def top)
    then have "lru_rep ?s' (?a # as) (k # ks)"
      using Nil ks dk sk bound dist unfolding lru_rep_def by simp
    then show ?thesis using p by simp
  next
    case (Cons b bs)
    have top: "lru_top s = Some b" "lru_bottom s = Some (last as)"
      using r Cons by (auto simp: lru_rep_def)
    have bn: "b \<notin> set bs" "b \<noteq> ?a" using r Cons fresh by (auto simp: lru_rep_def)
    obtain n where n: "?h1 b = Some n"
      "chain (?h1(b \<mapsto> n\<lparr>up := Some ?a\<rparr>)) (Some ?a) (b # bs) ks None"
      using chain_set_up_first[of ?h1 None b bs ks None "Some ?a"] ch1 Cons bn by auto
    let ?h2 = "?h1(b \<mapsto> n\<lparr>up := Some ?a\<rparr>)"
    let ?s' = "s\<lparr>lru_heap := ?h2, lru_next := Suc ?a, lru_top := Some ?a,
                  lru_cache := lru_cache s @ [(k, ?a)]\<rparr>"
    have p: "push_top k s = Inr ?s'"
      using top upd n(1) by (simp add: push_top_def alloc_def set_up_def)
    have "chain ?h2 None (?a # b # bs) (k # ks) None"
      using n(2) bn by (simp add: Node_def top)
    then have "lru_rep ?s' (?a # as) (k # ks)"
      using Cons dk sk bound dist top unfolding lru_rep_def by simp
    then show ?thesis using p by simp
  qed
qed

lemma zip_split:
  assumes "(k, a) \<in> set (zip ks as)"
  shows "\<exists>kx ky xs ys. ks = kx @ k # ky \<and> as = xs @ a # ys \<and> length xs = length kx"
proof -
  obtain i where i: "ks ! i = k" "as ! i = a" "i < length ks" "i < length as"
    using assms by (auto simp: in_set_zip)
  have "ks = take i ks @ k # drop (Suc i) ks" using id_take_nth_drop[OF i(3)] i(1) by simp
  moreover have "as = take i as @ a # drop (Suc i) as" using id_take_nth_drop[OF i(4)] i(2) by simp
  moreover have "length (take i as) = length (take i ks)" using i(3,4) by simp
  ultimately show ?thesis by blast
qed

lemma set_delete_zip:
  assumes "set d = set (zip (kx @ k # ky) (xs @ a # ys))" and "length xs = length kx"
    and "distinct (kx @ k # ky)"
  shows "set (AList.delete k d) = set (zip (kx @ ky) (xs @ ys))"
proof -
  have "set (AList.delete k d) = {p \<in> set d. fst p \<noteq> k}"
    by (auto simp: AList.delete_eq)
  moreover have "set d = set (zip kx xs) \<union> {(k, a)} \<union> set (zip ky ys)"
    using assms(1,2) by simp
  moreover have "\<forall>p \<in> set (zip kx xs) \<union> set (zip ky ys). fst p \<noteq> k"
    using assms(3) by (auto dest: set_zip_leftD)
  ultimately have "set (AList.delete k d) = set (zip kx xs) \<union> set (zip ky ys)"
    by auto
  then show ?thesis using assms(2) by simp
qed

lemma unlink_rep:
  assumes r: "lru_rep s (xs @ a # ys) (kx @ k # ky)" and len: "length xs = length kx"
    and ne: "xs \<noteq> []"
  shows "\<exists>n s2. lru_heap s a = Some n \<and> up n = Some (last xs) \<and>
           down n = (case ys of [] \<Rightarrow> None | b # _ \<Rightarrow> Some b) \<and>
           (\<forall>F :: 'k lru \<Rightarrow> error + (bool \<times> 'k lru).
              ebind (if down n \<noteq> None then set_up (down n) (up n) s
                     else Inr (s\<lparr>lru_bottom := up n\<rparr>)) (\<lambda>self1.
                ebind (deref (Some a) self1) (\<lambda>n1.
                  ebind (set_down (up n1) (down n1) self1) F)) = F s2) \<and>
           lru_rep (s2\<lparr>lru_cache := AList.delete k (lru_cache s2)\<rparr>) (xs @ ys) (kx @ ky) \<and>
           lru_cache s2 = lru_cache s \<and> lru_maxlen s2 = lru_maxlen s \<and> lru_next s2 = lru_next s"
proof -
  let ?h = "lru_heap s"
  let ?l = "last xs"
  have ch: "chain ?h None (xs @ a # ys) (kx @ k # ky) None" using r by (simp add: lru_rep_def)
  have chx: "chain ?h None xs kx (Some a)" and cha: "chain ?h (Some ?l) (a # ys) (k # ky) None"
    using ch ne chain_append[OF len, of ?h None "a # ys" "k # ky" None] by auto
  obtain n where n: "?h a = Some n" "val n = k" "up n = Some ?l"
    "down n = (case ys of [] \<Rightarrow> None | b # _ \<Rightarrow> Some b)" "chain ?h (Some a) ys ky None"
    using cha by (auto split: option.splits)
  have dist: "distinct xs" "distinct ys" "a \<notin> set xs" "a \<notin> set ys" "set xs \<inter> set ys = {}"
    using r by (auto simp: lru_rep_def)
  have lx: "?l \<in> set xs" using ne by simp
  have cache: "distinct (map fst (AList.delete k (lru_cache s)))"
    "set (AList.delete k (lru_cache s)) = set (zip (kx @ ky) (xs @ ys))"
    using r set_delete_zip[of "lru_cache s" kx k ky xs a ys] len
    by (auto simp: lru_rep_def distinct_delete)
  have top: "lru_top s = (case xs @ ys of [] \<Rightarrow> None | c # _ \<Rightarrow> Some c)"
    using r ne by (cases xs) (auto simp: lru_rep_def)
  have bound: "\<forall>c \<in> set (xs @ ys). c < lru_next s" using r by (auto simp: lru_rep_def)
  have dks: "distinct (xs @ ys)" "distinct (kx @ ky)" using r by (auto simp: lru_rep_def)
  show ?thesis
  proof (cases ys)
    case Nil
    obtain m where m: "?h ?l = Some m" "chain (?h(?l \<mapsto> m\<lparr>down := None\<rparr>)) None xs kx None"
      using chain_set_down_last[OF chx ne dist(1), of None] by auto
    let ?s2 = "s\<lparr>lru_bottom := Some ?l, lru_heap := ?h(?l \<mapsto> m\<lparr>down := None\<rparr>)\<rparr>"
    have ky: "ky = []" using n(5) Nil chain_length[of ?h "Some a" ys ky None] by simp
    have run: "\<forall>F :: 'k lru \<Rightarrow> error + (bool \<times> 'k lru).
              ebind (if down n \<noteq> None then set_up (down n) (up n) s
                     else Inr (s\<lparr>lru_bottom := up n\<rparr>)) (\<lambda>self1.
                ebind (deref (Some a) self1) (\<lambda>n1.
                  ebind (set_down (up n1) (down n1) self1) F)) = F ?s2"
      using n Nil m(1) by (simp add: deref_def set_down_def)
    have "lru_rep (?s2\<lparr>lru_cache := AList.delete k (lru_cache ?s2)\<rparr>) (xs @ ys) (kx @ ky)"
      using m(2) Nil ky cache top bound dks ne unfolding lru_rep_def by simp
    moreover have "lru_cache ?s2 = lru_cache s" "lru_maxlen ?s2 = lru_maxlen s"
      "lru_next ?s2 = lru_next s" by simp_all
    ultimately show ?thesis using n(1,3,4) run by blast
  next
    case (Cons b bs)
    have bl: "b \<noteq> ?l" "b \<noteq> a" "b \<notin> set xs" "b \<notin> set bs" "?l \<notin> set (b # bs)" "a \<noteq> ?l"
      using dist lx Cons by auto
    obtain nb where nb: "?h b = Some nb"
      "chain (?h(b \<mapsto> nb\<lparr>up := Some ?l\<rparr>)) (Some ?l) (b # bs) ky None"
      using chain_set_up_first[of ?h "Some a" b bs ky None "Some ?l"] n(5) Cons bl by auto
    let ?h1 = "?h(b \<mapsto> nb\<lparr>up := Some ?l\<rparr>)"
    have chx1: "chain ?h1 None xs kx (Some a)" using chx bl(3) by (rule chain_frame)
    obtain m where m: "?h1 ?l = Some m" "chain (?h1(?l \<mapsto> m\<lparr>down := Some b\<rparr>)) None xs kx (Some b)"
      using chain_set_down_last[OF chx1 ne dist(1), of "Some b"] by auto
    let ?h2 = "?h1(?l \<mapsto> m\<lparr>down := Some b\<rparr>)"
    have chy2: "chain ?h2 (Some ?l) (b # bs) ky None" using nb(2) bl(5) by (rule chain_frame)
    have ch2: "chain ?h2 None (xs @ ys) (kx @ ky) None"
      using m(2) chy2 ne Cons chain_append[OF len, of ?h2 None ys ky None] by simp
    let ?s2 = "s\<lparr>lru_heap := ?h2\<rparr>"
    have run: "\<forall>F :: 'k lru \<Rightarrow> error + (bool \<times> 'k lru).
              ebind (if down n \<noteq> None then set_up (down n) (up n) s
                     else Inr (s\<lparr>lru_bottom := up n\<rparr>)) (\<lambda>self1.
                ebind (deref (Some a) self1) (\<lambda>n1.
                  ebind (set_down (up n1) (down n1) self1) F)) = F ?s2"
      using n Cons nb(1) m(1) bl by (simp add: deref_def set_down_def set_up_def)
    have bot: "lru_bottom s = Some (last (xs @ ys))" using r Cons by (simp add: lru_rep_def)
    have "lru_rep (?s2\<lparr>lru_cache := AList.delete k (lru_cache ?s2)\<rparr>) (xs @ ys) (kx @ ky)"
      using ch2 cache top bound dks bot Cons unfolding lru_rep_def by simp
    moreover have "lru_cache ?s2 = lru_cache s" "lru_maxlen ?s2 = lru_maxlen s"
      "lru_next ?s2 = lru_next s" by simp_all
    ultimately show ?thesis using n(1,3,4) run by blast
  qed
qed


lemma lru_get_rep:
  assumes r: "lru_rep s as ks"
  shows "\<exists>s' as'. lru_get k s = Inr (k \<in> set ks, s') \<and>
           lru_rep s' as' (if k \<in> set ks then k # remove1 k ks else ks) \<and>
           lru_maxlen s' = lru_maxlen s"
proof (cases "k \<in> set ks")
  case False
  then have "lru_get k s = Inr (False, s)" using rep_has[OF r, of k] by (simp add: lru_get_def)
  then show ?thesis using False r by auto
next
  case True
  then obtain a where a: "(k, a) \<in> set (lru_cache s)" using rep_keys[OF r] by force
  then have "(k, a) \<in> set (zip ks as)" using r by (simp add: lru_rep_def)
  then obtain kx ky xs ys where sp: "ks = kx @ k # ky" "as = xs @ a # ys" "length xs = length kx"
    using zip_split by fastforce
  have has: "lru_has k s" using rep_has[OF r, of k] True by simp
  have mo: "map_of (lru_cache s) k = Some a"
    using a r by (simp add: lru_rep_def)
  have knot: "k \<notin> set kx" "k \<notin> set ky" using r sp by (auto simp: lru_rep_def)
  show ?thesis
  proof (cases "xs = []")
    case True
    then have kx: "kx = []" using sp(3) by simp
    have "chain (lru_heap s) None (a # ys) (k # ky) None"
      using r sp True kx by (simp add: lru_rep_def)
    then obtain n where "lru_heap s a = Some n" "up n = None" by (auto split: option.splits)
    then have "lru_get k s = Inr (True, s)" using has mo by (simp add: lru_get_def deref_def)
    moreover have "k # remove1 k ks = ks" using sp kx by simp
    ultimately show ?thesis using r \<open>k \<in> set ks\<close> by auto
  next
    case False
    obtain n s2 where u: "lru_heap s a = Some n" "up n = Some (last xs)"
      "\<forall>F :: 'a lru \<Rightarrow> error + (bool \<times> 'a lru).
              ebind (if down n \<noteq> None then set_up (down n) (up n) s
                     else Inr (s\<lparr>lru_bottom := up n\<rparr>)) (\<lambda>self1.
                ebind (deref (Some a) self1) (\<lambda>n1.
                  ebind (set_down (up n1) (down n1) self1) F)) = F s2"
      "lru_rep (s2\<lparr>lru_cache := AList.delete k (lru_cache s2)\<rparr>) (xs @ ys) (kx @ ky)"
      "lru_cache s2 = lru_cache s" "lru_maxlen s2 = lru_maxlen s"
      using unlink_rep[of s xs a ys kx k ky] r sp False by blast
    have dh: "dict_has k (lru_cache s2)" using has u(5) by (simp add: lru_has_def)
    obtain s3 where p: "push_top k (s2\<lparr>lru_cache := AList.delete k (lru_cache s2)\<rparr>) = Inr s3"
      "lru_rep s3 (lru_next s2 # xs @ ys) (k # kx @ ky)" "lru_maxlen s3 = lru_maxlen s2"
      using push_top_rep[OF u(4), of k] knot by auto
    have d0: "deref (Some a) s = Inr n" using u(1) by (simp add: deref_def)
    have "lru_get k s = Inr (True, s3)"
      unfolding lru_get_def
      apply (simp only: has mo d0 u(2) simp_thms if_False if_True option.case ebind.simps
          option.distinct)
      apply (simp only: u(3)[unfolded u(2)] dict_del_def dh if_True ebind.simps p(1))
      done
    moreover have "k # remove1 k ks = k # kx @ ky" using sp knot by (simp add: remove1_append)
    ultimately show ?thesis using p(2,3) u(6) \<open>k \<in> set ks\<close> by auto
  qed
qed

lemma lru_put_rep:
  assumes r: "lru_rep s as ks" and cap: "1 \<le> lru_maxlen s"
  shows "\<exists>ev s' as'. lru_put k s = Inr (ev, s') \<and> lru_maxlen s' = lru_maxlen s \<and>
           (if k \<in> set ks then ev = None \<and> lru_rep s' as' (k # remove1 k ks)
            else if int (length ks) + 1 \<le> lru_maxlen s then ev = None \<and> lru_rep s' as' (k # ks)
            else ev = Some (last ks) \<and> lru_rep s' as' (k # butlast ks))"
proof -
  obtain s0 as0 where g: "lru_get k s = Inr (k \<in> set ks, s0)"
    "lru_rep s0 as0 (if k \<in> set ks then k # remove1 k ks else ks)" "lru_maxlen s0 = lru_maxlen s"
    using lru_get_rep[OF r, of k] by blast
  show ?thesis
  proof (cases "k \<in> set ks")
    case True
    then have "lru_put k s = Inr (None, s0)" using g(1) by (simp add: lru_put_def lru_insert_def)
    then show ?thesis using True g(2,3) by auto
  next
    case False
    then have r0: "lru_rep s0 as0 ks" using g(2) by simp
    obtain s1 where p: "push_top k s0 = Inr s1" "lru_rep s1 (lru_next s0 # as0) (k # ks)"
      "lru_maxlen s1 = lru_maxlen s0"
      using push_top_rep[OF r0 False] by blast
    have len1: "lru_len s1 = int (length ks) + 1" using rep_len[OF p(2)] by simp
    show ?thesis
    proof (cases "int (length ks) + 1 \<le> lru_maxlen s")
      case True
      then have "lru_put k s = Inr (None, s1)"
        using g(1) \<open>k \<notin> set ks\<close> p(1,3) g(3) len1 by (simp add: lru_put_def lru_insert_def)
      then show ?thesis using True \<open>k \<notin> set ks\<close> p g(3) by auto
    next
      case over: False
      then have ne: "ks \<noteq> []" using cap by auto
      then have ne0: "as0 \<noteq> []" using r0 chain_length[of "lru_heap s0" None as0 ks None]
        by (auto simp: lru_rep_def)
      let ?a' = "lru_next s0"
      let ?xs = "?a' # butlast as0"
      let ?kx = "k # butlast ks"
      let ?a = "last as0"
      let ?l = "last ?xs"
      let ?h = "lru_heap s1"
      have as: "?a' # as0 = ?xs @ [?a]" "k # ks = ?kx @ [last ks]" using ne ne0 by simp_all
      have lenx: "length ?xs = length ?kx"
        using r0 chain_length[of "lru_heap s0" None as0 ks None] by (simp add: lru_rep_def)
      have r1: "lru_rep s1 (?xs @ ?a # []) (?kx @ last ks # [])" using p(2) as by simp
      have ch: "chain ?h None (?xs @ [?a]) (?kx @ [last ks]) None" using r1 by (simp add: lru_rep_def)
      have chx: "chain ?h None ?xs ?kx (Some ?a)"
        and cha: "chain ?h (Some ?l) [?a] [last ks] None"
        using ch chain_append[OF lenx, of ?h None "[?a]" "[last ks]" None] by auto
      obtain na where na: "?h ?a = Some na" "val na = last ks" "up na = Some ?l"
        using cha by (auto split: option.splits)
      have dist: "distinct ?xs" "?a \<notin> set ?xs" "distinct ?kx"
        using r1 unfolding lru_rep_def by (simp_all del: butlast.simps last.simps)
      have al: "?a \<noteq> ?l" using dist(2) last_in_set[of ?xs] by auto
      obtain m where m: "?h ?l = Some m" "chain (?h(?l \<mapsto> m\<lparr>down := None\<rparr>)) None ?xs ?kx None"
        using chain_set_down_last[OF chx _ dist(1), of None] by auto
      let ?h2 = "(?h(?l \<mapsto> m\<lparr>down := None\<rparr>))(?a \<mapsto> na\<lparr>up := None\<rparr>)"
      have ch2: "chain ?h2 None ?xs ?kx None" using m(2) dist(2) by (rule chain_frame)
      have top: "lru_top s1 = Some ?a'" and bot: "lru_bottom s1 = Some ?a"
        using p(2) ne0 by (simp_all add: lru_rep_def)
      have neq: "lru_bottom s1 \<noteq> lru_top s1" using top bot dist(2) by auto
      have dh: "dict_has (last ks) (lru_cache s1)"
        using rep_keys[OF p(2)] ne by (simp add: dict_has_def)
      let ?s' = "s1\<lparr>lru_heap := ?h2, lru_bottom := Some ?l,
                    lru_cache := AList.delete (last ks) (lru_cache s1)\<rparr>"
      have put: "lru_put k s = Inr (Some (last ks), ?s')"
        using g(1) \<open>k \<notin> set ks\<close> p(1,3) g(3) len1 over neq bot na m(1) al dh
        by (simp add: lru_put_def lru_insert_def deref_def set_down_def set_up_def dict_del_def Let_def
            del: butlast.simps last.simps)
      have cache: "distinct (map fst (AList.delete (last ks) (lru_cache s1)))"
        "set (AList.delete (last ks) (lru_cache s1)) = set (zip (?kx @ []) (?xs @ []))"
        using r1 set_delete_zip[of "lru_cache s1" ?kx "last ks" "[]" ?xs ?a "[]"] lenx
        unfolding lru_rep_def by (simp_all add: distinct_delete del: butlast.simps last.simps)
      have bound: "\<forall>c \<in> set ?xs. c < lru_next s1"
        using r1 unfolding lru_rep_def by (simp del: butlast.simps last.simps)
      have "lru_rep ?s' ?xs ?kx"
        using ch2 cache dist bound top unfolding lru_rep_def
        by (simp del: butlast.simps last.simps)
      then show ?thesis using put over \<open>k \<notin> set ks\<close> p(3) g(3) by auto
    qed
  qed
qed

lemma length_move_front: "k \<in> set ks \<Longrightarrow> length (k # remove1 k ks) = length ks"
  using length_pos_if_in_set[of k ks] by (simp add: length_remove1)

lemma set_butlast_distinct:
  assumes "distinct ks" and "ks \<noteq> []"
  shows "set (butlast ks) = set ks - {last ks}"
proof -
  obtain xs x where ks: "ks = xs @ [x]" using assms(2) by (metis rev_exhaust)
  then have "x \<notin> set xs" using assms(1) by simp
  then show ?thesis using ks by auto
qed

lemma lru_dump_rep: "lru_rep s as ks \<Longrightarrow> lru_dump s = Some (Inr ks)"
  using dump_loop_chain[of "lru_heap s" None as ks "[]"]
  by (simp add: lru_rep_def lru_dump_def)

lemma LruCache_inv:
  assumes "LruCache C = Inr s"
  shows "lru_inv s \<and> lru_maxlen s = C"
proof -
  have s: "s = \<lparr>lru_cache = [], lru_bottom = None, lru_top = None, lru_maxlen = C,
                 lru_heap = Map.empty, lru_next = 0\<rparr>" and C: "0 < C"
    using assms by (simp_all add: LruCache_def Let_def split: if_splits)
  have "lru_rep s [] []" using s by (simp add: lru_rep_def)
  then have "lru_rep s [] [] \<and> 1 \<le> lru_maxlen s \<and> int (length ([]::'a list)) \<le> lru_maxlen s"
    using s C by simp
  then have "lru_inv s" unfolding lru_inv_def by blast
  then show ?thesis using s by simp
qed

lemma lru_get_inv:
  assumes "lru_inv s"
  shows "\<exists>s'. lru_get k s = Inr (lru_has k s, s') \<and> lru_inv s' \<and> lru_maxlen s' = lru_maxlen s \<and>
           (\<forall>k'. lru_has k' s' = lru_has k' s)"
proof -
  obtain as ks where r: "lru_rep s as ks" "1 \<le> lru_maxlen s" "int (length ks) \<le> lru_maxlen s"
    using assms by (auto simp: lru_inv_def)
  obtain s' as' where g: "lru_get k s = Inr (k \<in> set ks, s')"
    "lru_rep s' as' (if k \<in> set ks then k # remove1 k ks else ks)" "lru_maxlen s' = lru_maxlen s"
    using lru_get_rep[OF r(1), of k] by blast
  have len: "length (if k \<in> set ks then k # remove1 k ks else ks) = length ks"
    using length_move_front[of k ks] by simp
  have st: "set (if k \<in> set ks then k # remove1 k ks else ks) = set ks"
    using r(1) by (auto simp: lru_rep_def)
  have "lru_rep s' as' (if k \<in> set ks then k # remove1 k ks else ks) \<and> 1 \<le> lru_maxlen s' \<and>
        int (length (if k \<in> set ks then k # remove1 k ks else ks)) \<le> lru_maxlen s'"
    using g(2,3) r(2,3) len by simp
  then have "lru_inv s'" unfolding lru_inv_def by blast
  moreover have "\<forall>k'. lru_has k' s' = lru_has k' s"
    using rep_has[OF g(2)] rep_has[OF r(1)] st by simp
  ultimately show ?thesis using g(1,3) rep_has[OF r(1), of k] by auto
qed

lemma lru_put_inv:
  assumes "lru_inv s"
  shows "\<exists>ev s'. lru_put k s = Inr (ev, s') \<and> lru_inv s' \<and> lru_maxlen s' = lru_maxlen s \<and>
           (\<forall>k'. lru_has k' s' = ((lru_has k' s \<or> k' = k) \<and> Some k' \<noteq> ev))"
proof -
  obtain as ks where r: "lru_rep s as ks" "1 \<le> lru_maxlen s" "int (length ks) \<le> lru_maxlen s"
    using assms by (auto simp: lru_inv_def)
  have dk: "distinct ks" using r(1) by (simp add: lru_rep_def)
  obtain ev s' as' where p: "lru_put k s = Inr (ev, s')" "lru_maxlen s' = lru_maxlen s"
    "if k \<in> set ks then ev = None \<and> lru_rep s' as' (k # remove1 k ks)
     else if int (length ks) + 1 \<le> lru_maxlen s then ev = None \<and> lru_rep s' as' (k # ks)
     else ev = Some (last ks) \<and> lru_rep s' as' (k # butlast ks)"
    using lru_put_rep[OF r(1,2), of k] by blast
  have has: "\<And>k'. lru_has k' s = (k' \<in> set ks)" using rep_has[OF r(1)] by simp
  consider (hit) "k \<in> set ks" | (fits) "k \<notin> set ks" "int (length ks) + 1 \<le> lru_maxlen s"
    | (over) "k \<notin> set ks" "\<not> int (length ks) + 1 \<le> lru_maxlen s" by blast
  then show ?thesis
  proof cases
    case hit
    then have e: "ev = None" "lru_rep s' as' (k # remove1 k ks)" using p(3) by auto
    have "length (k # remove1 k ks) = length ks" using hit by (rule length_move_front)
    then have "lru_rep s' as' (k # remove1 k ks) \<and> 1 \<le> lru_maxlen s' \<and>
        int (length (k # remove1 k ks)) \<le> lru_maxlen s'"
      using e(2) r(2,3) p(2) by simp
    then have "lru_inv s'" unfolding lru_inv_def by blast
    moreover have "\<forall>k'. lru_has k' s' = ((lru_has k' s \<or> k' = k) \<and> Some k' \<noteq> ev)"
      using rep_has[OF e(2)] has hit e(1) dk by auto
    ultimately show ?thesis using p(1,2) by blast
  next
    case fits
    then have e: "ev = None" "lru_rep s' as' (k # ks)" using p(3) by auto
    have "int (length (k # ks)) \<le> lru_maxlen s'" using fits(2) p(2) by simp
    then have "lru_rep s' as' (k # ks) \<and> 1 \<le> lru_maxlen s' \<and>
        int (length (k # ks)) \<le> lru_maxlen s'"
      using e(2) r(2) p(2) by simp
    then have "lru_inv s'" unfolding lru_inv_def by blast
    moreover have "\<forall>k'. lru_has k' s' = ((lru_has k' s \<or> k' = k) \<and> Some k' \<noteq> ev)"
      using rep_has[OF e(2)] has e(1) by auto
    ultimately show ?thesis using p(1,2) by blast
  next
    case over
    then have e: "ev = Some (last ks)" "lru_rep s' as' (k # butlast ks)" using p(3) by auto
    have ne: "ks \<noteq> []" using over(2) r(2) by auto
    have "int (length (k # butlast ks)) \<le> lru_maxlen s'" using ne r(3) p(2) by simp
    then have "lru_rep s' as' (k # butlast ks) \<and> 1 \<le> lru_maxlen s' \<and>
        int (length (k # butlast ks)) \<le> lru_maxlen s'"
      using e(2) r(2) p(2) by simp
    then have "lru_inv s'" unfolding lru_inv_def by blast
    moreover have "set (butlast ks) = set ks - {last ks}"
      using dk ne by (rule set_butlast_distinct)
    then have "\<forall>k'. lru_has k' s' = ((lru_has k' s \<or> k' = k) \<and> Some k' \<noteq> ev)"
      using rep_has[OF e(2)] has e(1) over(1) ne by auto
    ultimately show ?thesis using p(1,2) by blast
  qed
qed

lemma lru_call_inv:
  assumes "lru_inv s"
  shows "\<exists>s'. lru_call c s = Inr s' \<and> lru_inv s' \<and> lru_maxlen s' = lru_maxlen s"
proof (cases c)
  case (Get k)
  then show ?thesis using lru_get_inv[OF assms, of k] by auto
next
  case (Put k)
  then show ?thesis using lru_put_inv[OF assms, of k] by auto
next
  case Clear
  obtain as ks where r: "lru_rep s as ks" "1 \<le> lru_maxlen s"
    using assms by (auto simp: lru_inv_def)
  have "lru_rep (lru_clear s) [] [] \<and> 1 \<le> lru_maxlen (lru_clear s) \<and>
        int (length ([]::'a list)) \<le> lru_maxlen (lru_clear s)"
    using r by (simp add: lru_rep_def lru_clear_def)
  then have "lru_inv (lru_clear s)" unfolding lru_inv_def by blast
  then show ?thesis using Clear by (simp add: lru_clear_def)
qed

lemma lru_run_inv:
  "lru_inv s \<Longrightarrow> \<exists>s'. lru_run cs s = Inr s' \<and> lru_inv s' \<and> lru_maxlen s' = lru_maxlen s"
proof (induction cs arbitrary: s)
  case Nil
  then show ?case by simp
next
  case (Cons c cs)
  obtain s1 where s1: "lru_call c s = Inr s1" "lru_inv s1" "lru_maxlen s1 = lru_maxlen s"
    using lru_call_inv[OF Cons.prems, of c] by auto
  show ?case using Cons.IH[OF s1(2)] s1 by auto
qed

text \<open>
  Claim C5. In a state \<open>s\<close> that a fresh \<open>LruCache\<close> reaches by any calls,
  \<open>dump\<close> returns a list \<open>ks\<close>; \<open>get\<close> of a resident key \<open>k\<close> returns
  true and leaves a cache whose dump is \<open>k\<close> followed by the other keys in their
  former order, so \<open>k\<close> is its first element; and \<open>put\<close> of an absent key that
  makes the size exceed \<open>maxlen\<close> returns the last element of \<open>ks\<close>, the dump
  taken just before, and leaves the dump \<open>k\<close> followed by \<open>ks\<close> without its
  last element.
\<close>

theorem lru_get_first_put_evicts_last:
  assumes "LruCache C = Inr init" and "lru_run cs init = Inr s"
  shows "\<exists>ks. lru_dump s = Some (Inr ks) \<and>
           (lru_has k s \<longrightarrow>
              (\<exists>s'. lru_get k s = Inr (True, s') \<and> lru_dump s' = Some (Inr (k # remove1 k ks)))) \<and>
           (\<not> lru_has k s \<and> lru_len s + 1 > lru_maxlen s \<longrightarrow>
              ks \<noteq> [] \<and>
              (\<exists>s'. lru_put k s = Inr (Some (last ks), s') \<and>
                    lru_dump s' = Some (Inr (k # butlast ks))))"
proof -
  have "lru_inv s" using lru_run_inv[of init cs] LruCache_inv[OF assms(1)] assms(2) by auto
  then obtain as ks where r: "lru_rep s as ks" "1 \<le> lru_maxlen s" "int (length ks) \<le> lru_maxlen s"
    by (auto simp: lru_inv_def)
  have d: "lru_dump s = Some (Inr ks)" using r(1) by (rule lru_dump_rep)
  have g: "\<exists>s'. lru_get k s = Inr (True, s') \<and> lru_dump s' = Some (Inr (k # remove1 k ks))"
    if "lru_has k s"
  proof -
    have in_ks: "k \<in> set ks" using that rep_has[OF r(1), of k] by simp
    then obtain s' as' where "lru_get k s = Inr (True, s')" "lru_rep s' as' (k # remove1 k ks)"
      using lru_get_rep[OF r(1), of k] by auto
    then show ?thesis using lru_dump_rep by blast
  qed
  have p: "ks \<noteq> [] \<and> (\<exists>s'. lru_put k s = Inr (Some (last ks), s') \<and>
                    lru_dump s' = Some (Inr (k # butlast ks)))"
    if "\<not> lru_has k s \<and> lru_len s + 1 > lru_maxlen s"
  proof -
    have a: "k \<notin> set ks" "\<not> int (length ks) + 1 \<le> lru_maxlen s"
      using that rep_has[OF r(1), of k] rep_len[OF r(1)] by auto
    then obtain s' as' where "lru_put k s = Inr (Some (last ks), s')" "lru_rep s' as' (k # butlast ks)"
      using lru_put_rep[OF r(1,2), of k] by auto
    moreover have "ks \<noteq> []" using a(2) r(2) by auto
    ultimately show ?thesis using lru_dump_rep by blast
  qed
  show ?thesis using d g p by blast
qed

theorem lru_get_first_put_evicts_last_witness:
  "\<exists>init s. LruCache 2 = Inr init \<and> lru_run [Put ''A'', Put ''B'', Get ''A''] init = Inr s \<and>
     lru_dump s = Some (Inr [''A'', ''B'']) \<and>
     (\<exists>s'. lru_get ''B'' s = Inr (True, s') \<and> lru_dump s' = Some (Inr [''B'', ''A''])) \<and>
     (\<exists>s'. lru_put ''C'' s = Inr (Some ''B'', s') \<and> lru_dump s' = Some (Inr [''C'', ''A'']))"
proof -
  obtain init :: "string lru" where i: "LruCache 2 = Inr init"
    by (simp add: LruCache_def Let_def)
  have inv: "lru_inv init" using LruCache_inv[OF i] by simp
  obtain s where s: "lru_run [Put ''A'', Put ''B'', Get ''A''] init = Inr s"
    using lru_run_inv[OF inv] by blast
  have init: "init = \<lparr>lru_cache = [], lru_bottom = None, lru_top = None, lru_maxlen = 2,
                       lru_heap = Map.empty, lru_next = 0\<rparr>"
    using i by (simp add: LruCache_def Let_def)
  have "case lru_run [Put ''A'', Put ''B'', Get ''A'']
               \<lparr>lru_cache = [], lru_bottom = None, lru_top = None, lru_maxlen = 2,
                  lru_heap = Map.empty, lru_next = 0\<rparr> of
          Inl e \<Rightarrow> False
        | Inr s \<Rightarrow> lru_dump s = Some (Inr [''A'', ''B'']) \<and> lru_has ''B'' s \<and>
            \<not> lru_has ''C'' s \<and> lru_len s + 1 > lru_maxlen s"
    by (simp add: lru_put_def lru_insert_def lru_get_def lru_has_def dict_has_def push_top_def alloc_def
        Node_def set_up_def set_down_def deref_def dict_del_def lru_len_def lru_dump_def
        dump_loop.simps)
  then have ev: "lru_dump s = Some (Inr [''A'', ''B'']) \<and> lru_has ''B'' s \<and> \<not> lru_has ''C'' s \<and>
            lru_len s + 1 > lru_maxlen s"
    using s init by simp
  obtain ks where k: "lru_dump s = Some (Inr ks)"
    "lru_has ''B'' s \<longrightarrow>
       (\<exists>s'. lru_get ''B'' s = Inr (True, s') \<and> lru_dump s' = Some (Inr (''B'' # remove1 ''B'' ks)))"
    using lru_get_first_put_evicts_last[OF i s, of "''B''"] by blast
  obtain ks' where k': "lru_dump s = Some (Inr ks')"
    "\<not> lru_has ''C'' s \<and> lru_len s + 1 > lru_maxlen s \<longrightarrow>
       ks' \<noteq> [] \<and> (\<exists>s'. lru_put ''C'' s = Inr (Some (last ks'), s') \<and>
                          lru_dump s' = Some (Inr (''C'' # butlast ks')))"
    using lru_get_first_put_evicts_last[OF i s, of "''C''"] by blast
  have "ks = [''A'', ''B'']" "ks' = [''A'', ''B'']" using ev k(1) k'(1) by simp_all
  then show ?thesis using i s ev k(2) k'(2) by auto
qed

subsection \<open>FifoCache, RandCache and LfuCache: what put does to the resident keys\<close>

lemma length_removeAll_distinct:
  "distinct xs \<Longrightarrow> x \<in> set xs \<Longrightarrow> Suc (length (removeAll x xs)) = length xs"
  using length_pos_if_in_set[of x xs]
  by (simp add: distinct_remove1_removeAll[symmetric] length_remove1)

lemma same_set_length: "distinct xs \<Longrightarrow> distinct ys \<Longrightarrow> set xs = set ys \<Longrightarrow> length xs = length ys"
  by (metis distinct_card)

lemma fifo_put_inv:
  assumes inv: "fifo_inv s"
  shows "\<exists>ev s'. fifo_put k s = Inr (ev, s') \<and> fifo_inv s' \<and> fifo_maxlen s' = fifo_maxlen s \<and>
           (\<forall>k'. fifo_has k' s' = ((fifo_has k' s \<or> k' = k) \<and> Some k' \<noteq> ev))"
proof (cases "fifo_has k s")
  case True
  then have "fifo_put k s = Inr (None, s)"
    using inv by (simp add: fifo_put_def fifo_inv_def fifo_len_def)
  then show ?thesis using inv True by auto
next
  case False
  let ?c = "fifo_cache s" and ?d = "fifo_d s"
  have k: "k \<notin> set ?c" "k \<notin> set ?d" using False inv by (auto simp: fifo_has_def fifo_inv_def)
  have i: "distinct ?c" "distinct ?d" "set ?c = set ?d" "1 \<le> fifo_maxlen s"
    "int (length ?c) \<le> fifo_maxlen s"
    using inv by (auto simp: fifo_inv_def)
  show ?thesis
  proof (cases "int (length ?c) + 1 \<le> fifo_maxlen s")
    case True
    let ?s' = "s\<lparr>fifo_cache := ?c @ [k], fifo_d := k # ?d\<rparr>"
    have "fifo_put k s = Inr (None, ?s')"
      using False True k by (simp add: fifo_put_def fifo_len_def set_add_def)
    moreover have "fifo_inv ?s'" using i k True by (auto simp: fifo_inv_def)
    moreover have "\<forall>k'. fifo_has k' ?s' = ((fifo_has k' s \<or> k' = k) \<and> Some k' \<noteq> None)"
      by (auto simp: fifo_has_def)
    ultimately show ?thesis by (intro exI[of _ None] exI[of _ ?s']) simp
  next
    case over: False
    have len: "length ?c = length ?d" using i by (intro same_set_length) auto
    have ne: "?d \<noteq> []" using over i(4) len by auto
    let ?e = "last ?d"
    have e: "?e \<in> set ?c" "?e \<noteq> k" using ne i(3) k by auto
    let ?s' = "s\<lparr>fifo_cache := removeAll ?e ?c @ [k], fifo_d := k # butlast ?d\<rparr>"
    have "fifo_put k s = Inr (Some ?e, ?s')"
      using False over k ne e by (simp add: fifo_put_def fifo_len_def set_add_def set_remove_def Let_def)
    moreover have sb: "set (butlast ?d) = set ?d - {?e}"
    proof -
      obtain xs x where d: "?d = xs @ [x]" using ne by (metis rev_exhaust)
      then have "x \<notin> set xs" using i(2) by simp
      then show ?thesis using d by auto
    qed
    have "fifo_inv ?s'"
      using i k e sb length_removeAll_distinct[OF i(1) e(1)]
      by (auto simp: fifo_inv_def distinct_butlast distinct_removeAll)
    moreover have "\<forall>k'. fifo_has k' ?s' = ((fifo_has k' s \<or> k' = k) \<and> Some k' \<noteq> Some ?e)"
      using e by (auto simp: fifo_has_def)
    ultimately show ?thesis by (intro exI[of _ "Some ?e"] exI[of _ ?s']) simp
  qed
qed

lemma randcache_put_inv:
  assumes inv: "rand_inv s" and R: "random_in_range R"
  shows "\<exists>ev g' s'. randcache_put R k (g, s) = Inr (ev, g', s') \<and> rand_inv s' \<and>
           rand_maxlen s' = rand_maxlen s \<and>
           (\<forall>k'. randcache_has k' s' = ((randcache_has k' s \<or> k' = k) \<and> Some k' \<noteq> ev))"
proof (cases "randcache_has k s")
  case True
  then have "randcache_put R k (g, s) = Inr (None, g, s)" by (simp add: randcache_put_def)
  then show ?thesis using inv True by auto
next
  case False
  let ?c = "rand_cache s" and ?a = "rand_a s"
  have k: "k \<notin> set ?c" using False by (simp add: randcache_has_def)
  obtain ps where i: "distinct ?c" "1 \<le> rand_maxlen s" "int (length ?a) = rand_maxlen s"
    "int (length ?c) \<le> rand_maxlen s" "take (length ?c) ?a = map Some ps" "distinct ps"
    "set ps = set ?c"
    using inv by (auto simp: rand_inv_def)
  have lps: "length ps = length ?c" using i(3,4,5) by (metis length_map length_take min.absorb2 nat_int nat_le_iff of_nat_le_iff)
  show ?thesis
  proof (cases "int (length ?c) = rand_maxlen s")
    case full: True
    obtain j g' where rj: "randint R 0 (rand_maxlen s - 1) g = (j, g')" by (cases "randint R 0 (rand_maxlen s - 1) g")
    have "0 \<le> fst (randint R 0 (rand_maxlen s - 1) g) \<and>
          fst (randint R 0 (rand_maxlen s - 1) g) \<le> rand_maxlen s - 1"
    proof -
      have "\<And>a b g. a \<le> b \<Longrightarrow> a \<le> fst (randint R a b g) \<and> fst (randint R a b g) \<le> b"
        using R unfolding random_in_range_def by blast
      from this[of 0 "rand_maxlen s - 1" g] show ?thesis using i(2) by simp
    qed
    then have j: "0 \<le> j" "j < rand_maxlen s" using rj by auto
    let ?n = "nat j"
    have n: "?n < length ?a" "?n < length ps" using j i(3) lps full by auto
    have idx: "np_index ?a j = Inr ?n" using j i(3) by (simp add: np_index_def Let_def)
    have a_eq: "?a = map Some ps" using i(5) full i(3) by simp
    let ?e = "ps ! ?n"
    have e1: "?a ! ?n = Some ?e" using a_eq n(2) by simp
    have e2: "?e \<in> set ?c" using nth_mem[OF n(2)] i(7) by simp
    have e3: "?e \<noteq> k" using e2 k by auto
    note e = e1 e2 e3
    let ?s' = "s\<lparr>rand_a := ?a[?n := Some k], rand_cache := removeAll ?e ?c @ [k]\<rparr>"
    have put: "randcache_put R k (g, s) = Inr (Some ?e, g', ?s')"
      using False full rj idx e k
      by (simp add: randcache_put_def randcache_len_def set_remove_def set_add_def Let_def)
    have a': "?a[?n := Some k] = map Some (ps[?n := k])" using a_eq by (metis map_update)
    have dps: "distinct (ps[?n := k])" using i(6,7) k by (simp add: distinct_list_update)
    have sps: "set (ps[?n := k]) = insert k (set ps - {?e})"
      using i(6) n(2) by (rule set_update_distinct)
    have len': "length (removeAll ?e ?c @ [k]) = length ?c"
      using length_removeAll_distinct[OF i(1) e(2)] by simp
    have tk: "take (length (removeAll ?e ?c @ [k])) (?a[?n := Some k]) = map Some (ps[?n := k])"
      using a' len' lps by (metis length_list_update length_map order_refl take_all)
    have "rand_inv ?s'"
      unfolding rand_inv_def using i(1,2,3,4) k e(3) tk dps sps i(7) len'
      by (auto simp: distinct_removeAll simp del: length_append)
    moreover have "\<forall>k'. randcache_has k' ?s' = ((randcache_has k' s \<or> k' = k) \<and> Some k' \<noteq> Some ?e)"
      using e by (auto simp: randcache_has_def)
    ultimately show ?thesis using put by (intro exI[of _ "Some ?e"] exI[of _ g'] exI[of _ ?s']) simp
  next
    case room: False
    let ?n = "length ?c"
    have n: "?n < length ?a" using room i(3,4) by linarith
    have idx: "np_index ?a (randcache_len s) = Inr ?n"
      using n by (simp add: np_index_def randcache_len_def Let_def)
    let ?s' = "s\<lparr>rand_a := ?a[?n := Some k], rand_cache := ?c @ [k]\<rparr>"
    have put: "randcache_put R k (g, s) = Inr (None, g, ?s')"
      using False room idx k
      by (simp add: randcache_put_def set_add_def Let_def) (simp add: randcache_len_def)
    have tk: "take (length (?c @ [k])) (?a[?n := Some k]) = map Some (ps @ [k])"
      using n i(5) by (simp add: take_Suc_conv_app_nth)
    have lb: "int (length (?c @ [k])) \<le> rand_maxlen s" using n i(3) by simp
    have "rand_inv ?s'"
      unfolding rand_inv_def using i(1,2,3,4,6,7) k n tk room lb
      by (auto simp del: length_append take_append simp add: exI[of _ "ps @ [k]"])
    moreover have "\<forall>k'. randcache_has k' ?s' = ((randcache_has k' s \<or> k' = k) \<and> Some k' \<noteq> None)"
      by (auto simp: randcache_has_def)
    ultimately show ?thesis using put by (intro exI[of _ None] exI[of _ g] exI[of _ ?s']) simp
  qed
qed

lemma keys_delete: "fst ` set (AList.delete k d) = fst ` set d - {k}"
  by (induction d) auto

lemma length_delete_distinct:
  "distinct (map fst d) \<Longrightarrow> k \<in> fst ` set d \<Longrightarrow> Suc (length (AList.delete k d)) = length d"
  by (induction d) (auto simp: delete_notin_dom image_iff)

lemma lfu_put_contract:
  assumes inv: "lfu_inv s" and cap: "1 \<le> lfu_maxlen s" and len: "lfu_len s \<le> lfu_maxlen s"
  shows "\<exists>ev s'. lfu_put k s = Inr (ev, s') \<and> lfu_inv s' \<and> lfu_maxlen s' = lfu_maxlen s \<and>
           lfu_len s' \<le> lfu_maxlen s' \<and>
           (\<forall>k'. lfu_has k' s' = ((lfu_has k' s \<or> k' = k) \<and> Some k' \<noteq> ev))"
proof (cases "lfu_has k s")
  case True
  then have "lfu_put k s = Inr (None, s)" by (simp add: lfu_put_def)
  then show ?thesis using inv len True by auto
next
  case False
  let ?d = "lfu_cache s @ [(k, (1::int, lfu_t s + 1))]"
  have abs: "k \<notin> fst ` set (lfu_cache s)"
    using False by (simp add: lfu_has_def dict_has_def)
  have upd: "AList.update k (1, lfu_t s + 1) (lfu_cache s) = ?d"
    using abs by (rule update_absent)
  let ?s2 = "s\<lparr>lfu_t := lfu_t s + 1, lfu_cache := ?d\<rparr>"
  have inv2: "lfu_inv ?s2" using inv abs by (fastforce simp: lfu_inv_def)
  show ?thesis
  proof (cases "lfu_len s + 1 \<le> lfu_maxlen s")
    case True
    then have "lfu_put k s = Inr (None, ?s2)"
      using False upd by (simp add: lfu_put_def lfu_len_def Let_def)
    moreover have "lfu_len ?s2 \<le> lfu_maxlen ?s2" using True by (simp add: lfu_len_def)
    moreover have "\<forall>k'. lfu_has k' ?s2 = ((lfu_has k' s \<or> k' = k) \<and> Some k' \<noteq> None)"
      by (auto simp: lfu_has_def dict_has_def)
    ultimately show ?thesis using inv2 by (intro exI[of _ None] exI[of _ ?s2]) simp
  next
    case over: False
    obtain m where m: "py_min snd ?d = Inr m" "m \<in> set ?d"
      using py_min_nonempty[of ?d snd] by auto
    let ?e = "fst m"
    let ?s' = "s\<lparr>lfu_t := lfu_t s + 1, lfu_cache := AList.delete ?e ?d\<rparr>"
    have put: "lfu_put k s = Inr (Some ?e, ?s')"
      using False over upd m(1) by (cases m) (simp add: lfu_put_def lfu_len_def Let_def)
    have i1: "distinct (map fst (AList.delete ?e ?d))"
      using inv2 by (simp only: lfu_inv_def) (simp add: distinct_delete del: map_append)
    have i2: "distinct (map (snd \<circ> snd) (AList.delete ?e ?d))"
      using inv2 by (simp only: lfu_inv_def) (simp add: distinct_map_delete del: map_append)
    have i3: "\<forall>x \<in> set (AList.delete ?e ?d). snd (snd x) \<le> lfu_t s + 1"
      using inv2 set_delete_subset[of ?e ?d] by (simp only: lfu_inv_def) fastforce
    have inv': "lfu_inv ?s'" using i1 i2 i3 by (simp add: lfu_inv_def)
    have dd: "distinct (map fst ?d)" using inv2 by (simp add: lfu_inv_def)
    have "?e \<in> fst ` set ?d" using m(2) by (rule imageI)
    then have "Suc (length (AList.delete ?e ?d)) = length ?d"
      using length_delete_distinct[OF dd] by blast
    then have len': "lfu_len ?s' \<le> lfu_maxlen ?s'" using len by (simp add: lfu_len_def)
    have ks: "fst ` set ?d = insert k (fst ` set (lfu_cache s))" by force
    have hs: "\<And>k'. lfu_has k' ?s' = (k' \<in> fst ` set ?d - {?e})"
      using keys_delete[of ?e ?d] by (simp add: lfu_has_def dict_has_def del: set_append)
    have "\<forall>k'. lfu_has k' ?s' = ((lfu_has k' s \<or> k' = k) \<and> Some k' \<noteq> Some ?e)"
      unfolding hs ks by (auto simp: lfu_has_def dict_has_def)
    then show ?thesis using put inv' len' by (intro exI[of _ "Some ?e"] exI[of _ ?s']) simp
  qed
qed

subsection \<open>All policies\<close>

lemma counter_random_in_range: "random_in_range counter_random"
proof -
  have A: "0 \<le> fst (random counter_random g) \<and> fst (random counter_random g) < 1" for g
  proof -
    have "g mod 4 < 4" by simp
    then have "real (g mod 4) < 4" by linarith
    then show ?thesis by (simp add: counter_random_def)
  qed
  have B: "a \<le> fst (randint counter_random a b g) \<and> fst (randint counter_random a b g) \<le> b"
    if ab: "a \<le> b" for a b g
  proof -
    have pos: "0 < b - a + 1" using ab by simp
    have "0 \<le> int g mod (b - a + 1)" using pos by (rule pos_mod_sign)
    moreover have "int g mod (b - a + 1) < b - a + 1" using pos by (rule pos_mod_bound)
    ultimately show ?thesis by (simp add: counter_random_def)
  qed
  show ?thesis unfolding random_in_range_def using A B by blast
qed

lemma length_update_present:
  "k \<in> fst ` set d \<Longrightarrow> length (AList.update k v d) = length d"
  by (induction d) auto

lemma lru_inv_len: "lru_inv s \<Longrightarrow> lru_len s \<le> lru_maxlen s"
  by (auto simp: lru_inv_def dest: rep_len)

lemma cache_inv_len: "cache_inv c \<Longrightarrow> cache_len c \<le> cache_maxlen c"
  by (cases c) (auto simp: null_len_def lru_inv_len fifo_inv_def fifo_len_def rand_inv_def
      randcache_len_def)

lemma FifoCache_inv: "FifoCache C = Inr s \<Longrightarrow> fifo_inv s \<and> fifo_maxlen s = C \<and> fifo_len s = 0"
  by (auto simp: FifoCache_def fifo_inv_def fifo_len_def Let_def split: if_splits)

lemma RandCache_inv:
  assumes "RandCache C = Inr s"
  shows "rand_inv s \<and> rand_maxlen s = C \<and> randcache_len s = 0"
proof -
  have s: "s = \<lparr>rand_cache = [], rand_a = replicate (nat C) None, rand_maxlen = C\<rparr>" and C: "0 < C"
    using assms by (auto simp: RandCache_def np_empty_def Let_def split: if_splits)
  show ?thesis using C unfolding s rand_inv_def randcache_len_def by simp
qed

lemma new_cache_inv:
  assumes "new_cache pol C = Inr c"
  shows "cache_inv c \<and> policy_of c = pol \<and> cache_len c = 0 \<and> (pol \<noteq> NULL \<longrightarrow> cache_maxlen c = C)"
proof (cases pol)
  case NULL
  then show ?thesis using assms by (auto simp: null_len_def)
next
  case LRU
  then obtain s where s: "LruCache C = Inr s" "c = Lru s" using assms by (cases "LruCache C :: error + 'a lru") auto
  have "lru_len s = 0" using s(1) by (auto simp: LruCache_def lru_len_def Let_def split: if_splits)
  then show ?thesis using LruCache_inv[OF s(1)] s(2) LRU by simp
next
  case LFU
  then obtain s where s: "LfuCache C = Inr s" "c = Lfu s" using assms by (cases "LfuCache C :: error + 'a lfu") auto
  have "lfu_len s = 0" using s(1) by (auto simp: LfuCache_def lfu_len_def Let_def split: if_splits)
  then show ?thesis using LfuCache_inv[OF s(1)] s(2) LFU by simp
next
  case FIFO
  then obtain s where s: "FifoCache C = Inr s" "c = Fifo s" using assms by (cases "FifoCache C :: error + 'a fifo") auto
  then show ?thesis using FifoCache_inv[OF s(1)] FIFO by simp
next
  case RAND
  then obtain s where s: "RandCache C = Inr s" "c = Rand s" using assms by (cases "RandCache C :: error + 'a rand") auto
  then show ?thesis using RandCache_inv[OF s(1)] RAND by simp
qed

lemma cache_put_contract:
  assumes inv: "cache_inv c" and R: "random_in_range R"
  shows "\<exists>ev g' c'. cache_put R k (g, c) = Inr (ev, g', c') \<and> cache_inv c' \<and>
           cache_maxlen c' = cache_maxlen c \<and> policy_of c' = policy_of c \<and>
           (policy_of c \<noteq> NULL \<longrightarrow>
              (\<forall>k'. cache_has k' c' = ((cache_has k' c \<or> k' = k) \<and> Some k' \<noteq> ev)))"
proof (cases c)
  case Null
  then show ?thesis by simp
next
  case (Lru s)
  then show ?thesis using lru_put_inv[of s k] inv by auto
next
  case (Lfu s)
  then show ?thesis using lfu_put_contract[of s k] inv by auto
next
  case (Fifo s)
  then show ?thesis using fifo_put_inv[of s k] inv by auto
next
  case (Rand s)
  then show ?thesis using randcache_put_inv[of s R k g] inv R by auto
qed

lemma cache_get_contract:
  assumes inv: "cache_inv c"
  shows "\<exists>c'. cache_get k (g, c) = Inr (cache_has k c, g, c') \<and> cache_inv c' \<and>
           cache_maxlen c' = cache_maxlen c \<and> policy_of c' = policy_of c \<and>
           (\<forall>k'. cache_has k' c' = cache_has k' c)"
proof (cases c)
  case Null
  then show ?thesis by (simp add: null_get_def null_has_def)
next
  case (Lru s)
  then show ?thesis using lru_get_inv[of s k] inv by auto
next
  case (Lfu s)
  obtain s' where g: "lfu_get k s = Inr (lfu_has k s, s')" "lfu_inv s'" "lfu_maxlen s' = lfu_maxlen s"
    using lfu_get_inv[of s k] inv Lfu by auto
  have upd: "s' = s \<or> (lfu_has k s \<and> (\<exists>v. s' = s\<lparr>lfu_cache := AList.update k v (lfu_cache s)\<rparr>))"
    using g(1) by (auto simp: lfu_get_def split: if_splits option.splits)
  have keys: "fst ` set (lfu_cache s') = fst ` set (lfu_cache s)"
  proof (cases "s' = s")
    case True
    then show ?thesis by simp
  next
    case False
    then obtain v where v: "lfu_has k s" "s' = s\<lparr>lfu_cache := AList.update k v (lfu_cache s)\<rparr>"
      using upd by blast
    have "fst ` set (lfu_cache s') = {k} \<union> fst ` set (lfu_cache s)"
      using v(2) by (simp add: dom_update)
    moreover have "k \<in> fst ` set (lfu_cache s)" using v(1) by (simp add: lfu_has_def dict_has_def)
    ultimately show ?thesis by blast
  qed
  have "lfu_len s' = lfu_len s"
  proof (cases "s' = s")
    case True
    then show ?thesis by simp
  next
    case False
    then obtain v where v: "lfu_has k s" "s' = s\<lparr>lfu_cache := AList.update k v (lfu_cache s)\<rparr>"
      using upd by blast
    have "k \<in> fst ` set (lfu_cache s)" using v(1) by (simp add: lfu_has_def dict_has_def)
    then show ?thesis using v(2) by (simp add: lfu_len_def length_update_present)
  qed
  then show ?thesis using g keys inv Lfu by (auto simp: lfu_has_def dict_has_def)
next
  case (Fifo s)
  then show ?thesis using inv by (simp add: fifo_get_def)
next
  case (Rand s)
  then show ?thesis using inv by (simp add: randcache_get_def)
qed

lemma cache_clear_contract:
  assumes inv: "cache_inv c"
  shows "\<exists>c'. cache_clear (g, c) = (g, c') \<and> cache_inv c' \<and>
           cache_maxlen c' = cache_maxlen c \<and> policy_of c' = policy_of c \<and>
           (\<forall>k'. \<not> cache_has k' c') \<and> cache_len c' = 0"
proof (cases c)
  case Null
  then show ?thesis by (simp add: null_has_def null_len_def)
next
  case (Lru s)
  obtain as ks where r: "lru_rep s as ks" "1 \<le> lru_maxlen s"
    using inv Lru by (auto simp: lru_inv_def)
  have "lru_rep (lru_clear s) [] [] \<and> 1 \<le> lru_maxlen (lru_clear s) \<and>
        int (length ([]::'a list)) \<le> lru_maxlen (lru_clear s)"
    using r by (simp add: lru_rep_def lru_clear_def)
  then have "lru_inv (lru_clear s)" unfolding lru_inv_def by blast
  then show ?thesis using Lru by (simp add: lru_clear_def lru_has_def dict_has_def lru_len_def)
next
  case (Lfu s)
  then show ?thesis using inv
    by (simp add: lfu_clear_def lfu_inv_def lfu_has_def dict_has_def lfu_len_def)
next
  case (Fifo s)
  then show ?thesis using inv by (simp add: fifo_clear_def fifo_inv_def fifo_has_def fifo_len_def)
next
  case (Rand s)
  then show ?thesis using inv
    by (simp add: randcache_clear_def rand_inv_def randcache_has_def randcache_len_def)
qed

lemma cache_call_inv:
  assumes "cache_inv c" and "random_in_range R"
  shows "\<exists>g' c'. cache_call R cl (g, c) = Inr (g', c') \<and> cache_inv c' \<and>
           cache_maxlen c' = cache_maxlen c \<and> policy_of c' = policy_of c"
proof (cases cl)
  case (Get k)
  then show ?thesis using cache_get_contract[OF assms(1), of k g] by auto
next
  case (Put k)
  then show ?thesis using cache_put_contract[OF assms, of k g] by auto
next
  case Clear
  then show ?thesis using cache_clear_contract[OF assms(1), of g] by auto
qed

lemma cache_run_inv:
  assumes "random_in_range R"
  shows "cache_inv c \<Longrightarrow> \<exists>g' c'. cache_run R cs (g, c) = Inr (g', c') \<and> cache_inv c' \<and>
           cache_maxlen c' = cache_maxlen c \<and> policy_of c' = policy_of c"
proof (induction cs arbitrary: g c)
  case Nil
  then show ?case by simp
next
  case (Cons cl cs)
  obtain g1 c1 where s1: "cache_call R cl (g, c) = Inr (g1, c1)" "cache_inv c1"
    "cache_maxlen c1 = cache_maxlen c" "policy_of c1 = policy_of c"
    using cache_call_inv[OF Cons.prems assms, of cl g] by auto
  show ?case using Cons.IH[OF s1(2), of g1] s1 by auto
qed

lemma new_cache_result:
  "new_cache pol C = (if pol \<noteq> NULL \<and> C \<le> 0 then Inl ValueError else new_cache pol C) \<and>
   (\<not> (pol \<noteq> NULL \<and> C \<le> 0) \<longrightarrow> (\<exists>c. new_cache pol C = Inr (c :: 'k cache)))"
  by (cases pol)
    (auto simp: LruCache_def LfuCache_def FifoCache_def RandCache_def np_empty_def Let_def)

text \<open>
  Claim C1. For each of the policies LRU, LFU, FIFO and RAND and every capacity
  \<open>C > 0\<close>, the constructor returns a cache on which every finite sequence of calls
  (\<open>put\<close> with any keys, and \<open>get\<close> and \<open>clear\<close> as well) runs without an
  exception and ends with \<open>len\<close> at most \<open>C\<close>. Every prefix of a sequence is a
  sequence, so the bound holds after every call. For RAND the draws of \<open>randint\<close>
  are taken to lie in the range asked for.
\<close>

theorem size_within_capacity:
  assumes "pol \<noteq> NULL" and "0 < C" and "random_in_range R"
  shows "\<exists>c :: 'k cache. new_cache pol C = Inr c \<and>
           (\<forall>cs g. \<exists>g' c'. cache_run R cs (g, c) = Inr (g', c') \<and> cache_len c' \<le> C)"
proof -
  obtain c :: "'k cache" where c: "new_cache pol C = Inr c"
    using new_cache_result[of pol C] assms(1,2) by auto
  have inv: "cache_inv c" "cache_maxlen c = C" using new_cache_inv[OF c] assms(1) by auto
  have "\<exists>g' c'. cache_run R cs (g, c) = Inr (g', c') \<and> cache_len c' \<le> C" for cs g
  proof -
    obtain g' c' where r: "cache_run R cs (g, c) = Inr (g', c')" "cache_inv c'"
      "cache_maxlen c' = cache_maxlen c"
      using cache_run_inv[OF assms(3) inv(1), of cs g] by blast
    then show ?thesis using cache_inv_len[OF r(2)] inv(2) by auto
  qed
  then show ?thesis using c by blast
qed

theorem size_within_capacity_witness:
  "\<exists>c :: nat cache. new_cache RAND 2 = Inr c \<and>
     (\<exists>g' c'. cache_run counter_random [Put 1, Put 2, Put 3, Put 4] (0, c) = Inr (g', c') \<and>
        cache_len c' \<le> 2)"
proof -
  have "RAND \<noteq> NULL" "(0::int) < 2" by simp_all
  from size_within_capacity[OF this counter_random_in_range]
  show ?thesis by blast
qed

subsection \<open>keyval_cache\<close>

lemma ebind_Inr: "ebind m f = Inr y \<Longrightarrow> \<exists>x. m = Inr x \<and> f x = Inr y"
  by (cases m) auto

lemma lfu_put_evicted:
  assumes "lfu_put k s = Inr (Some e, s')"
  shows "lfu_has e s \<or> e = k"
proof -
  let ?d = "AList.update k (1, lfu_t s + 1) (lfu_cache s)"
  obtain m where m: "py_min snd ?d = Inr m" "e = fst m"
    using assms by (auto simp: lfu_put_def Let_def split: if_splits sum.splits)
  have "?d \<noteq> []" using m(1) by (auto simp: py_min_def)
  then have "m \<in> set ?d" using py_min_nonempty[of ?d snd] m(1) by auto
  then have "e \<in> fst ` set ?d" using m(2) by simp
  then show ?thesis by (auto simp: dom_update lfu_has_def dict_has_def simp del: set_map)
qed

lemma fifo_put_evicted:
  assumes "fifo_put k s = Inr (Some e, s')"
  shows "fifo_has e s \<or> e = k"
  using assms
  by (auto simp: fifo_put_def fifo_has_def set_remove_def set_add_def Let_def
      split: if_splits)

lemma randcache_put_evicted:
  assumes "randcache_put R k (g, s) = Inr (Some e, g', s')"
  shows "randcache_has e s"
  using assms
  by (auto simp: randcache_put_def randcache_has_def set_remove_def Let_def
      dest!: ebind_Inr split: if_splits prod.splits option.splits)

lemma lru_put_evicted:
  assumes inv: "lru_inv s" and put: "lru_put k s = Inr (Some e, s')"
  shows "lru_has e s"
proof -
  obtain as ks where r: "lru_rep s as ks" "1 \<le> lru_maxlen s"
    using inv by (auto simp: lru_inv_def)
  obtain ev s1 as' where p: "lru_put k s = Inr (ev, s1)"
    "if k \<in> set ks then ev = None \<and> lru_rep s1 as' (k # remove1 k ks)
     else if int (length ks) + 1 \<le> lru_maxlen s then ev = None \<and> lru_rep s1 as' (k # ks)
     else ev = Some (last ks) \<and> lru_rep s1 as' (k # butlast ks)"
    using lru_put_rep[OF r, of k] by blast
  have ev: "ev = Some e" using p(1) put by simp
  then have "e = last ks" "\<not> int (length ks) + 1 \<le> lru_maxlen s"
    using p(2) by (auto split: if_splits)
  then have "e \<in> set ks" using r(2) by (cases ks) auto
  then show ?thesis using rep_has[OF r(1)] by simp
qed

lemma cache_put_evicted:
  assumes "cache_inv c" and "cache_put R k (g, c) = Inr (Some e, g', c')"
  shows "cache_has e c \<or> e = k"
proof (cases c)
  case Null
  then show ?thesis using assms(2) by (simp add: null_put_def)
next
  case (Lru s)
  then show ?thesis using assms lru_put_evicted[of s k e] by (auto dest!: ebind_Inr)
next
  case (Lfu s)
  then show ?thesis using assms lfu_put_evicted[of k s e] by (auto dest!: ebind_Inr)
next
  case (Fifo s)
  then show ?thesis using assms fifo_put_evicted[of k s e] by (auto dest!: ebind_Inr)
next
  case (Rand s)
  then show ?thesis using assms randcache_put_evicted[of R k g s e] by (auto dest!: ebind_Inr)
qed


lemma bound_put_as_class_put:
  assumes "map_of vals k = Some v" and "policy_of c = LRU \<longrightarrow> truthy v"
  shows "bound_put R k ((g, c), vals) =
           ebind (cache_put R k (g, c)) (\<lambda>(evicted, w'). Inr (evicted, w', vals))"
proof (cases c)
  case (Lru s)
  then have tv: "truthy v" using assms(2) by simp
  show ?thesis
  proof (cases "lru_get k s")
    case (Inl e)
    then show ?thesis using Lru by (simp add: kv_get_def lru_k_get_def lru_put_def)
  next
    case (Inr p)
    obtain found s' where p: "p = (found, s')" by (cases p)
    show ?thesis
    proof (cases found)
      case True
      then show ?thesis using Lru Inr p assms(1) tv
        by (simp add: kv_get_def lru_k_get_def lru_put_def)
    next
      case False
      then show ?thesis using Lru Inr p
        by (cases "lru_insert k s'") (auto simp: kv_get_def lru_k_get_def lru_put_def)
    qed
  qed
qed simp_all

lemma kv_put_inv:
  assumes I: "kv_inv c vals" and R: "random_in_range R" and k: "truthy k"
    and v: "policy_of c = LRU \<longrightarrow> truthy v"
  shows "\<exists>ev g' c' vals'. kv_put (bound_put R) k v ((g, c), vals) = Inr (ev, (g', c'), vals') \<and>
           kv_inv c' vals' \<and> policy_of c' = policy_of c"
proof -
  let ?vals1 = "AList.update k v vals"
  have i: "cache_inv c" "policy_of c \<noteq> NULL" "fst ` set vals = {k. cache_has k c}"
    "\<forall>k. cache_has k c \<longrightarrow> truthy k"
    using I by (auto simp: kv_inv_def)
  obtain ev g' c' where p: "cache_put R k (g, c) = Inr (ev, g', c')" "cache_inv c'"
    "policy_of c' = policy_of c"
    "\<forall>k'. cache_has k' c' = ((cache_has k' c \<or> k' = k) \<and> Some k' \<noteq> ev)"
    using cache_put_contract[OF i(1) R, of k g] i(2) by auto
  have mk: "map_of ?vals1 k = Some v" by (simp add: update_conv')
  have bp: "bound_put R k ((g, c), ?vals1) = Inr (ev, (g', c'), ?vals1)"
    using bound_put_as_class_put[OF mk v, of R g] p(1) by simp
  have keys1: "fst ` set ?vals1 = {k'. cache_has k' c \<or> k' = k}"
    using i(3) by (auto simp: dom_update simp del: set_map)
  have tr: "\<forall>k'. cache_has k' c' \<longrightarrow> truthy k'" using p(4) i(4) k by auto
  show ?thesis
  proof (cases ev)
    case None
    then have "kv_put (bound_put R) k v ((g, c), vals) = Inr (None, (g', c'), ?vals1)"
      using bp by (simp add: kv_put_def)
    moreover have "kv_inv c' ?vals1"
      using p(2,3,4) i(2) keys1 tr None unfolding kv_inv_def by simp
    ultimately show ?thesis using p(3) by blast
  next
    case (Some e)
    have "cache_put R k (g, c) = Inr (Some e, g', c')" using p(1) Some by simp
    then have ein: "cache_has e c \<or> e = k" using i(1) by (rule cache_put_evicted[rotated])
    then have te: "truthy e" using i(4) k by auto
    have "e \<in> fst ` set ?vals1" using ein keys1 by simp
    then obtain x where x: "map_of ?vals1 e = Some x"
      using map_of_has[of e ?vals1] by (auto simp: dict_has_def)
    have put: "kv_put (bound_put R) k v ((g, c), vals) =
                 Inr (Some (e, x), (g', c'), AList.delete e ?vals1)"
      using bp Some te x by (simp add: kv_put_def)
    have "fst ` set (AList.delete e ?vals1) = {k'. cache_has k' c'}"
      using keys_delete[of e ?vals1] keys1 p(4) Some by auto
    then have "kv_inv c' (AList.delete e ?vals1)"
      using p(2,3) i(2) tr unfolding kv_inv_def by simp
    then show ?thesis using put p(3) by blast
  qed
qed

lemma kv_get_inv:
  assumes I: "kv_inv c vals"
  shows "\<exists>r g' c' vals'. kv_get cache_get k ((g, c), vals) = Inr (r, (g', c'), vals') \<and>
           kv_inv c' vals' \<and> policy_of c' = policy_of c"
proof -
  have i: "cache_inv c" "policy_of c \<noteq> NULL" "fst ` set vals = {k. cache_has k c}"
    "\<forall>k. cache_has k c \<longrightarrow> truthy k"
    using I by (auto simp: kv_inv_def)
  obtain c' where gt: "cache_get k (g, c) = Inr (cache_has k c, g, c')" "cache_inv c'"
    "policy_of c' = policy_of c" "\<forall>k'. cache_has k' c' = cache_has k' c"
    using cache_get_contract[OF i(1), of k g] by auto
  have inv': "kv_inv c' vals" using gt(2,3,4) i unfolding kv_inv_def by simp
  show ?thesis
  proof (cases "cache_has k c")
    case True
    then have "k \<in> fst ` set vals" using i(3) by simp
    then obtain x where "map_of vals k = Some x"
      using map_of_has[of k vals] by (auto simp: dict_has_def)
    then have "kv_get cache_get k ((g, c), vals) = Inr (Some x, (g, c'), vals)"
      using gt(1) True by (simp add: kv_get_def)
    then show ?thesis using inv' gt(3) by blast
  next
    case False
    then have "kv_get cache_get k ((g, c), vals) = Inr (None, (g, c'), vals)"
      using gt(1) by (simp add: kv_get_def)
    then show ?thesis using inv' gt(3) by blast
  qed
qed

lemma kv_clear_inv:
  assumes I: "kv_inv c vals"
  shows "\<exists>g' c' vals'. kv_clear cache_clear ((g, c), vals) = ((g', c'), vals') \<and> kv_inv c' vals' \<and>
           policy_of c' = policy_of c"
proof -
  obtain c' where cl: "cache_clear (g, c) = (g, c')" "cache_inv c'" "policy_of c' = policy_of c"
    "\<forall>k'. \<not> cache_has k' c'"
    using cache_clear_contract[of c g] I by (auto simp: kv_inv_def)
  have "kv_inv c' ([] :: (pykey, 'a) dict)" using cl I unfolding kv_inv_def by simp
  then show ?thesis using cl(1,3) by (simp add: kv_clear_def)
qed

lemma kv_run_inv:
  assumes R: "random_in_range R"
  shows "kv_inv c vals \<Longrightarrow>
         \<forall>k v. KvPut k v \<in> set cls \<longrightarrow> truthy k \<and> (policy_of c = LRU \<longrightarrow> truthy v) \<Longrightarrow>
         \<exists>g' c' vals'. kv_run R cls ((g, c), vals) = Inr ((g', c'), vals') \<and> kv_inv c' vals'"
proof (induction cls arbitrary: g c vals)
  case Nil
  then show ?case by simp
next
  case (Cons cl cls)
  have "\<exists>g1 c1 vals1. kv_step R cl ((g, c), vals) = Inr ((g1, c1), vals1) \<and> kv_inv c1 vals1 \<and>
          policy_of c1 = policy_of c"
  proof (cases cl)
    case (KvGet k)
    then show ?thesis using kv_get_inv[OF Cons.prems(1), of k g] by auto
  next
    case (KvPut k v)
    then have "truthy k" "policy_of c = LRU \<longrightarrow> truthy v" using Cons.prems(2) by auto
    then show ?thesis using kv_put_inv[OF Cons.prems(1) R, of k v g] KvPut by auto
  next
    case KvClear
    then show ?thesis using kv_clear_inv[OF Cons.prems(1), of g] by auto
  qed
  then obtain g1 c1 vals1 where s1:
    "kv_step R cl ((g, c), vals) = Inr ((g1, c1), vals1)"
    "kv_inv c1 vals1" "policy_of c1 = policy_of c" by blast
  have "\<forall>k v. KvPut k v \<in> set cls \<longrightarrow> truthy k \<and> (policy_of c1 = LRU \<longrightarrow> truthy v)"
    using Cons.prems(2) s1(3) by auto
  from Cons.IH[OF s1(2) this, of g1] show ?case using s1(1) by simp
qed


text \<open>
  Claim C3, as amended. Let \<open>keyval_cache\<close> wrap a cache of policy LRU, LFU, FIFO
  or RAND that holds no key: one that a constructor has returned and that any calls,
  which leave it empty, have used. Then after the construction, and after every
  sequence of \<open>kv_put\<close>, \<open>kv_get\<close> and \<open>kv_clear\<close> calls in which the keys put
  are true in Python's sense (and, over an \<open>LruCache\<close>, the values put as well), the
  key set of \<open>_vals\<close> is the resident key set of the wrapped cache, and no call
  raises. (\<open>copy.deepcopy\<close> is taken to succeed on the cache.)
\<close>

theorem keyval_keys_mirror:
  assumes "pol \<noteq> NULL" and "new_cache pol C = Inr c_new"
    and "cache_run R cs (g0, c_new) = Inr (g1, c)" and "\<forall>k. \<not> cache_has k c"
    and "can_copy c" and "random_in_range R"
    and "\<forall>k v. KvPut k v \<in> set cls \<longrightarrow> truthy k \<and> (pol = LRU \<longrightarrow> truthy v)"
  shows "\<exists>c0 vals0. keyval_cache can_copy (Cache c) = Inr (c0, vals0) \<and>
           fst ` set vals0 = {k. cache_has k c0} \<and>
           (\<exists>g' c' vals. kv_run R cls ((g, c0), vals0) = Inr ((g', c'), vals) \<and>
                fst ` set vals = {k. cache_has k c'})"
proof -
  have kc: "keyval_cache can_copy (Cache c) = Inr (c, [])"
    using assms(5) by (simp add: keyval_cache_def deepcopy_def)
  have inv0: "cache_inv c_new" "policy_of c_new = pol" using new_cache_inv[OF assms(2)] by auto
  have inv: "cache_inv c" "policy_of c = pol"
    using cache_run_inv[OF assms(6) inv0(1), of cs g0] assms(3) inv0(2) by auto
  have I: "kv_inv c ([] :: (pykey, pykey) dict)"
    using inv assms(1,4) unfolding kv_inv_def by simp
  have t: "\<forall>k v. KvPut k v \<in> set cls \<longrightarrow> truthy k \<and> (policy_of c = LRU \<longrightarrow> truthy v)"
    using assms(7) inv(2) by simp
  obtain g' c' vals where r: "kv_run R cls ((g, c), []) = Inr ((g', c'), vals)" "kv_inv c' vals"
    using kv_run_inv[OF assms(6) I t, of g] by blast
  have e: "fst ` set ([] :: (pykey, pykey) dict) = {k. cache_has k c}" using assms(4) by simp
  have f: "fst ` set vals = {k. cache_has k c'}" using r(2) by (simp add: kv_inv_def)
  have "\<exists>g' c' vals. kv_run R cls ((g, c), []) = Inr ((g', c'), vals) \<and>
                fst ` set vals = {k. cache_has k c'}"
    by (intro exI[of _ g'] exI[of _ c'] exI[of _ vals] conjI r(1) f)
  then show ?thesis by (intro exI[of _ c] exI[of _ "[]"] conjI kc e)
qed

theorem keyval_keys_mirror_witness:
  "\<exists>c_new g1 c c0 vals0. new_cache LRU 2 = Inr c_new \<and>
     cache_run counter_random [Put (KInt 5), Clear] (0, c_new) = Inr (g1, c) \<and>
     keyval_cache (\<lambda>c. True) (Cache c) = Inr (c0, vals0) \<and>
     fst ` set vals0 = {k. cache_has k c0} \<and>
     (\<exists>g' c' vals.
        kv_run counter_random
          [KvPut (KInt 1) (KStr ''a''), KvPut (KStr ''x'') (KInt 7), KvGet (KInt 1),
           KvPut (KInt 2) (KStr ''c''), KvPut (KInt 1) (KStr ''d'')]
          ((0, c0), vals0) = Inr ((g', c'), vals) \<and>
        fst ` set vals = {k. cache_has k c'})"
proof -
  obtain c_new :: "pykey cache" where c: "new_cache LRU 2 = Inr c_new"
    using new_cache_result[of LRU 2] by auto
  have inv0: "cache_inv c_new" using new_cache_inv[OF c] by simp
  obtain g1 c2 where x: "cache_call counter_random (Put (KInt 5)) (0, c_new) = Inr (g1, c2)"
    "cache_inv c2"
    using cache_call_inv[OF inv0 counter_random_in_range, of "Put (KInt 5)" 0] by blast
  obtain c1 where cl: "cache_clear (g1, c2) = (g1, c1)" "\<forall>k. \<not> cache_has k c1"
    using cache_clear_contract[OF x(2), of g1] by blast
  have run: "cache_run counter_random [Put (KInt 5), Clear] (0, c_new) = Inr (g1, c1)"
    using x(1) cl(1) by simp
  note empty = cl(2)
  have t: "\<forall>k v. KvPut k v \<in> set [KvPut (KInt 1) (KStr ''a''), KvPut (KStr ''x'') (KInt 7),
              KvGet (KInt 1), KvPut (KInt 2) (KStr ''c''), KvPut (KInt 1) (KStr ''d'')] \<longrightarrow>
            truthy k \<and> (LRU = LRU \<longrightarrow> truthy v)"
    by simp
  have "LRU \<noteq> NULL" "(\<lambda>c :: pykey cache. True) c1" by simp_all
  from keyval_keys_mirror[OF this(1) c run empty this(2) counter_random_in_range t, of 0]
  show ?thesis
  proof (elim exE)
    fix c0 and vals0 :: "(pykey, pykey) dict"
    assume k: "keyval_cache (\<lambda>c. True) (Cache c1) = Inr (c0, vals0) \<and>
      fst ` set vals0 = {k. cache_has k c0} \<and>
      (\<exists>g' c' vals.
        kv_run counter_random
          [KvPut (KInt 1) (KStr ''a''), KvPut (KStr ''x'') (KInt 7), KvGet (KInt 1),
           KvPut (KInt 2) (KStr ''c''), KvPut (KInt 1) (KStr ''d'')]
          ((0, c0), vals0) = Inr ((g', c'), vals) \<and>
        fst ` set vals = {k. cache_has k c'})"
    show ?thesis
      by (intro exI[of _ c_new] exI[of _ g1] exI[of _ c1] exI[of _ c0] exI[of _ vals0] conjI c
          run k[THEN conjunct1] k[THEN conjunct2, THEN conjunct1]
          k[THEN conjunct2, THEN conjunct2])
  qed
qed

text \<open>
  Claim C3 as it is stated fails where the wrapped cache already holds a key
  (\<open>_vals\<close> starts empty), and where it stores nothing (\<open>NullCache\<close>:
  \<open>_vals\<close> keeps the key that was put).
\<close>

theorem keyval_keys_mirror_counterexample:
  "FifoCache 2 = Inr \<lparr>fifo_cache = [], fifo_maxlen = 2, fifo_d = []\<rparr> \<and>
   fifo_put (KInt 1) \<lparr>fifo_cache = [], fifo_maxlen = 2, fifo_d = []\<rparr> =
     Inr (None, \<lparr>fifo_cache = [KInt 1], fifo_maxlen = 2, fifo_d = [KInt 1]\<rparr>) \<and>
   keyval_cache (\<lambda>c. True)
       (Cache (Fifo \<lparr>fifo_cache = [KInt 1], fifo_maxlen = 2, fifo_d = [KInt 1]\<rparr>)) =
     Inr (Fifo \<lparr>fifo_cache = [KInt 1], fifo_maxlen = 2, fifo_d = [KInt 1]\<rparr>, []) \<and>
   cache_has (KInt 1) (Fifo \<lparr>fifo_cache = [KInt 1], fifo_maxlen = 2, fifo_d = [KInt 1]\<rparr>) \<and>
   fst ` set ([] :: (pykey, pykey) dict) \<noteq>
     {k. cache_has k (Fifo \<lparr>fifo_cache = [KInt 1], fifo_maxlen = 2, fifo_d = [KInt 1]\<rparr>)} \<and>
   kv_put (bound_put counter_random) (KInt 1) (KStr ''v'') ((0, Null), []) =
     Inr (None, (0, Null), [(KInt 1, KStr ''v'')]) \<and>
   fst ` set [(KInt 1, KStr ''v'')] \<noteq> {k. cache_has k (Null :: pykey cache)}"
proof -
  let ?f = "Fifo \<lparr>fifo_cache = [KInt 1], fifo_maxlen = 2, fifo_d = [KInt 1]\<rparr>"
  have a: "FifoCache 2 = Inr \<lparr>fifo_cache = [], fifo_maxlen = 2, fifo_d = []\<rparr>"
    by (simp add: FifoCache_def Let_def)
  have b: "fifo_put (KInt 1) \<lparr>fifo_cache = [], fifo_maxlen = 2, fifo_d = []\<rparr> =
     Inr (None, \<lparr>fifo_cache = [KInt 1], fifo_maxlen = 2, fifo_d = [KInt 1]\<rparr>)"
    by (simp add: fifo_put_def fifo_has_def fifo_len_def set_add_def Let_def)
  have c: "keyval_cache (\<lambda>c. True) (Cache ?f) = Inr (?f, [])"
    by (simp add: keyval_cache_def deepcopy_def)
  have d: "cache_has (KInt 1) ?f" by (simp add: fifo_has_def)
  then have "KInt 1 \<in> {k. cache_has k ?f}" by simp
  then have e: "fst ` set ([] :: (pykey, pykey) dict) \<noteq> {k. cache_has k ?f}" by force
  have f: "kv_put (bound_put counter_random) (KInt 1) (KStr ''v'') ((0, Null), []) =
     Inr (None, (0, Null), [(KInt 1, KStr ''v'')])"
    by (simp add: kv_put_def null_put_def)
  have "{k. cache_has k (Null :: pykey cache)} = {}" by (simp add: null_has_def)
  then have g: "fst ` set [(KInt 1, KStr ''v'')] \<noteq> {k. cache_has k (Null :: pykey cache)}" by simp
  show ?thesis by (intro conjI a b c d e f g)
qed

text \<open>
  The amended claim asks for true values over an \<open>LruCache\<close>. With a false value the
  instance breaks: after \<open>put(1, 0)\<close> the second \<open>put(1, 0)\<close> finds the key, but
  \<open>LruCache.put\<close> tests the value \<open>0\<close> that the new \<open>get\<close> returns and pushes a
  second node for the key \<open>1\<close>; two evictions later \<open>del self._cache[1]\<close> raises
  \<open>KeyError\<close>.
\<close>

lemma kv_lru_false_value_raises:
  "kv_run counter_random
     [KvPut (KInt 1) (KInt 0), KvPut (KInt 1) (KInt 0), KvPut (KInt 2) (KInt 7),
      KvPut (KInt 3) (KInt 8), KvPut (KInt 4) (KInt 9)]
     ((0, Lru \<lparr>lru_cache = [], lru_bottom = None, lru_top = None, lru_maxlen = 2,
                lru_heap = Map.empty, lru_next = 0\<rparr>), []) = Inl KeyError"
  by (simp add: kv_put_def kv_get_def lru_k_get_def lru_insert_def lru_get_def lru_has_def
      dict_has_def push_top_def alloc_def Node_def set_up_def set_down_def deref_def dict_del_def
      lru_len_def Let_def)

text \<open>
  Claim C6, at the failing input. A \<open>FifoCache\<close> of capacity 1 is wrapped by
  \<open>keyval_cache\<close>; \<open>kv_put(0, 'a')\<close> stores the key \<open>0\<close>. Then \<open>kv_put(1, 'b')\<close>
  makes the inner \<open>put\<close> evict and report the key \<open>0\<close>, but the wrapper returns
  \<open>None\<close> instead of the pair \<open>(0, 'a')\<close>, and \<open>_vals\<close> keeps the entry of the
  evicted key.
\<close>

theorem kv_put_falsy_evicted:
  "FifoCache 1 = Inr \<lparr>fifo_cache = [], fifo_maxlen = 1, fifo_d = []\<rparr> \<and>
   keyval_cache (\<lambda>c. True) (Cache (Fifo \<lparr>fifo_cache = [], fifo_maxlen = 1, fifo_d = []\<rparr>)) =
     Inr (Fifo \<lparr>fifo_cache = [], fifo_maxlen = 1, fifo_d = []\<rparr>, []) \<and>
   kv_put (bound_put counter_random) (KInt 0) (KStr ''a'')
       ((0, Fifo \<lparr>fifo_cache = [], fifo_maxlen = 1, fifo_d = []\<rparr>), []) =
     Inr (None, (0, Fifo \<lparr>fifo_cache = [KInt 0], fifo_maxlen = 1, fifo_d = [KInt 0]\<rparr>),
          [(KInt 0, KStr ''a'')]) \<and>
   bound_put counter_random (KInt 1)
       ((0, Fifo \<lparr>fifo_cache = [KInt 0], fifo_maxlen = 1, fifo_d = [KInt 0]\<rparr>),
        [(KInt 0, KStr ''a''), (KInt 1, KStr ''b'')]) =
     Inr (Some (KInt 0), (0, Fifo \<lparr>fifo_cache = [KInt 1], fifo_maxlen = 1, fifo_d = [KInt 1]\<rparr>),
          [(KInt 0, KStr ''a''), (KInt 1, KStr ''b'')]) \<and>
   kv_put (bound_put counter_random) (KInt 1) (KStr ''b'')
       ((0, Fifo \<lparr>fifo_cache = [KInt 0], fifo_maxlen = 1, fifo_d = [KInt 0]\<rparr>),
        [(KInt 0, KStr ''a'')]) =
     Inr (None, (0, Fifo \<lparr>fifo_cache = [KInt 1], fifo_maxlen = 1, fifo_d = [KInt 1]\<rparr>),
          [(KInt 0, KStr ''a''), (KInt 1, KStr ''b'')])"
  by (simp add: FifoCache_def fifo_put_def fifo_has_def fifo_len_def set_add_def set_remove_def
      Let_def keyval_cache_def deepcopy_def kv_put_def)

subsection \<open>rand_insert_cache\<close>

lemma cache_put_ignores_generator:
  assumes "policy_of c \<noteq> RAND"
  shows "\<exists>r. (\<forall>g. cache_put R k (g, c) =
                 (case r of Inl e \<Rightarrow> Inl e | Inr (ev, c') \<Rightarrow> Inr (ev, g, c'))) \<and>
             (\<forall>ev c'. r = Inr (ev, c') \<longrightarrow> policy_of c' \<noteq> RAND)"
proof (cases c)
  case Null
  then show ?thesis by (intro exI[of _ "Inr (null_put k, Null)"]) simp
next
  case (Lru s)
  show ?thesis
    by (rule exI[of _ "ebind (lru_put k s) (\<lambda>(ev, s'). Inr (ev, Lru s'))"])
      (cases "lru_put k s"; auto simp: Lru)
next
  case (Lfu s)
  show ?thesis
    by (rule exI[of _ "ebind (lfu_put k s) (\<lambda>(ev, s'). Inr (ev, Lfu s'))"])
      (cases "lfu_put k s"; auto simp: Lfu)
next
  case (Fifo s)
  show ?thesis
    by (rule exI[of _ "ebind (fifo_put k s) (\<lambda>(ev, s'). Inr (ev, Fifo s'))"])
      (cases "fifo_put k s"; auto simp: Fifo)
next
  case (Rand s)
  then show ?thesis using assms by simp
qed

lemma run_puts_same_observation:
  "policy_of c \<noteq> RAND \<Longrightarrow> random_in_range R \<Longrightarrow>
   observed (run_puts (rand_put R 1 (cache_put R)) ks (g, c)) =
   observed (run_puts (cache_put R) ks (g2, c))"
proof (induction ks arbitrary: g g2 c)
  case Nil
  then show ?case by (simp add: observed_def)
next
  case (Cons k ks)
  obtain r where r: "\<And>g. cache_put R k (g, c) =
                 (case r of Inl e \<Rightarrow> Inl e | Inr (ev, c') \<Rightarrow> Inr (ev, g, c'))"
    "\<And>ev c'. r = Inr (ev, c') \<Longrightarrow> policy_of c' \<noteq> RAND"
    using cache_put_ignores_generator[OF Cons.prems(1), of R k] by blast
  have lt: "fst (random R g) < 1" using Cons.prems(2) by (simp add: random_in_range_def)
  have rp: "rand_put R 1 (cache_put R) k (g, c) = cache_put R k (snd (random R g), c)"
    using lt by (simp add: rand_put_def case_prod_beta)
  show ?case
  proof (cases r)
    case (Inl e)
    then show ?thesis using r(1) rp by (simp add: observed_def)
  next
    case (Inr p)
    obtain ev c' where p: "p = (ev, c')" by (cases p)
    have nr: "policy_of c' \<noteq> RAND" using r(2) Inr p by simp
    have "observed (run_puts (rand_put R 1 (cache_put R)) ks (snd (random R g), c')) =
          observed (run_puts (cache_put R) ks (g2, c'))"
      using Cons.IH[OF nr Cons.prems(2)] .
    then show ?thesis using r(1) rp Inr p
      by (cases "run_puts (rand_put R 1 (cache_put R)) ks (snd (random R g), c')";
          cases "run_puts (cache_put R) ks (g2, c')")
        (auto simp: observed_def)
  qed
qed

text \<open>
  Claim C8, as amended. The wrapper is built over a plain instance of a policy, and
  the draws of \<open>random()\<close> are taken to lie in \<open>[0, 1)\<close>. With \<open>p = 0\<close> every
  \<open>put\<close> of the wrapper returns \<open>None\<close> and leaves the cache as it was, so after
  any sequence of puts the cache, and with it \<open>len\<close>, \<open>has\<close>, \<open>get\<close> and
  \<open>dump\<close>, is unchanged. With \<open>p = 1\<close> the \<open>put\<close> of the wrapper is the former
  \<open>put\<close>, called once the wrapper has drawn from the process-wide generator, and
  returns its result; over a policy that does not draw (every one but RAND) any
  sequence of puts returns the same values and leaves the same cache as on the
  unwrapped instance. (The wrapper replaces \<open>put\<close> only: \<open>len\<close>, \<open>has\<close>,
  \<open>get\<close> and \<open>dump\<close> are those of the wrapped cache.)
\<close>

theorem rand_put_extremes:
  assumes "random_in_range R"
  shows "rand_put R 0 put k (g, c) = Inr (None, snd (random R g), c) \<and>
         (\<exists>g'. run_puts (rand_put R 0 put) ks (g, c) =
                 Inr (replicate (length ks) None, (g', c))) \<and>
         rand_put R 1 put = (\<lambda>k (g, c). put k (snd (random R g), c)) \<and>
         (policy_of c0 \<noteq> RAND \<longrightarrow>
            observed (run_puts (rand_put R 1 (cache_put R)) ks' (g0, c0)) =
            observed (run_puts (cache_put R) ks' (g0, c0)))"
proof -
  have r: "0 \<le> fst (random R g) \<and> fst (random R g) < 1" for g
    using assms by (simp add: random_in_range_def)
  have zero: "rand_put R 0 put k (g, c) = Inr (None, snd (random R g), c)" for k g
    using r[of g] by (simp add: rand_put_def case_prod_beta)
  have seq: "\<exists>g'. run_puts (rand_put R 0 put) ks (g, c) =
                 Inr (replicate (length ks) None, (g', c))" for g
  proof (induction ks arbitrary: g)
    case Nil
    then show ?case by simp
  next
    case (Cons k ks)
    obtain g' where "run_puts (rand_put R 0 put) ks (snd (random R g), c) =
                 Inr (replicate (length ks) None, (g', c))"
      using Cons.IH by blast
    then show ?case using zero[of k g] by simp
  qed
  have one: "rand_put R 1 put = (\<lambda>k (g, c). put k (snd (random R g), c))"
    using r by (intro ext) (simp add: rand_put_def case_prod_beta)
  have obs: "policy_of c0 \<noteq> RAND \<longrightarrow>
            observed (run_puts (rand_put R 1 (cache_put R)) ks' (g0, c0)) =
            observed (run_puts (cache_put R) ks' (g0, c0))"
    using run_puts_same_observation[OF _ assms, of c0 ks' g0 g0] by (rule impI)
  show ?thesis by (intro conjI zero seq one obs)
qed

theorem rand_put_extremes_witness:
  "rand_put counter_random 0 (cache_put counter_random) (5::nat)
       (3, Fifo \<lparr>fifo_cache = [4], fifo_maxlen = 1, fifo_d = [4]\<rparr>) =
     Inr (None, 4, Fifo \<lparr>fifo_cache = [4], fifo_maxlen = 1, fifo_d = [4]\<rparr>) \<and>
   rand_put counter_random 1 (cache_put counter_random) (5::nat)
       (3, Fifo \<lparr>fifo_cache = [4], fifo_maxlen = 1, fifo_d = [4]\<rparr>) =
     Inr (Some 4, 4, Fifo \<lparr>fifo_cache = [5], fifo_maxlen = 1, fifo_d = [5]\<rparr>) \<and>
   observed (run_puts (rand_put counter_random 1 (cache_put counter_random)) [1::nat, 2]
       (0, Fifo \<lparr>fifo_cache = [], fifo_maxlen = 1, fifo_d = []\<rparr>)) =
   observed (run_puts (cache_put counter_random) [1, 2]
       (0, Fifo \<lparr>fifo_cache = [], fifo_maxlen = 1, fifo_d = []\<rparr>))"
proof -
  note t = rand_put_extremes[OF counter_random_in_range]
  let ?f = "Fifo \<lparr>fifo_cache = [4::nat], fifo_maxlen = 1, fifo_d = [4]\<rparr>"
  have a: "rand_put counter_random 0 (cache_put counter_random) (5::nat) (3, ?f) = Inr (None, 4, ?f)"
    using t[THEN conjunct1, of "cache_put counter_random" 5 3 ?f]
    by (simp add: counter_random_def)
  have "rand_put counter_random 1 (cache_put counter_random) (5::nat) (3, ?f) =
          cache_put counter_random 5 (snd (random counter_random 3), ?f)"
    by (subst t[THEN conjunct2, THEN conjunct2, THEN conjunct1, of "cache_put counter_random"])
      simp
  then have b: "rand_put counter_random 1 (cache_put counter_random) (5::nat) (3, ?f) =
     Inr (Some 4, 4, Fifo \<lparr>fifo_cache = [5], fifo_maxlen = 1, fifo_d = [5]\<rparr>)"
    by (simp add: counter_random_def fifo_put_def fifo_has_def fifo_len_def set_add_def
        set_remove_def Let_def)
  have n: "policy_of (Fifo \<lparr>fifo_cache = [], fifo_maxlen = 1, fifo_d = []\<rparr> :: nat cache) \<noteq> RAND"
    by simp
  have c: "observed (run_puts (rand_put counter_random 1 (cache_put counter_random)) [1::nat, 2]
       (0, Fifo \<lparr>fifo_cache = [], fifo_maxlen = 1, fifo_d = []\<rparr>)) =
   observed (run_puts (cache_put counter_random) [1, 2]
       (0, Fifo \<lparr>fifo_cache = [], fifo_maxlen = 1, fifo_d = []\<rparr>))"
    using t[THEN conjunct2, THEN conjunct2, THEN conjunct2, THEN mp, OF n, of "[1, 2]" 0] .
  show ?thesis by (intro conjI a b c)
qed

text \<open>
  Claim C8 as it is stated fails over a \<open>RandCache\<close>: from the same state of the
  generator and the same empty cache of capacity 2, the puts of 1, 2 and 3 evict the
  key 1 on the unwrapped cache, and the key 2 through the wrapper with \<open>p = 1\<close>, whose
  own draws have moved the generator on before \<open>randint\<close> is called.
\<close>

theorem rand_put_extremes_counterexample:
  "RandCache 2 = Inr \<lparr>rand_cache = [], rand_a = [None, None], rand_maxlen = 2\<rparr> \<and>
   observed (run_puts (cache_put counter_random) [1::nat, 2, 3]
       (0, Rand \<lparr>rand_cache = [], rand_a = [None, None], rand_maxlen = 2\<rparr>)) =
     Inr ([None, None, Some 1],
          Rand \<lparr>rand_cache = [2, 3], rand_a = [Some 3, Some 2], rand_maxlen = 2\<rparr>) \<and>
   observed (run_puts (rand_put counter_random 1 (cache_put counter_random)) [1::nat, 2, 3]
       (0, Rand \<lparr>rand_cache = [], rand_a = [None, None], rand_maxlen = 2\<rparr>)) =
     Inr ([None, None, Some 2],
          Rand \<lparr>rand_cache = [1, 3], rand_a = [Some 1, Some 3], rand_maxlen = 2\<rparr>)"
  by (simp add: RandCache_def np_empty_def Let_def observed_def rand_put_def counter_random_def
      randcache_put_def randcache_has_def randcache_len_def np_index_def set_add_def
      set_remove_def numeral_2_eq_2)

subsection \<open>Construction\<close>







subsection \<open>The generator of the random module\<close>





subsection \<open>clear\<close>

lemma shift_fst: "map fst (map (lfu_shift d) xs) = map fst xs"
  by (induction xs) (auto simp: lfu_shift_def)

lemma shift_map_of:
  "map_of (map (lfu_shift d) xs) k = map_option (\<lambda>(f, t). (f, t + d)) (map_of xs k)"
  by (induction xs) (auto simp: lfu_shift_def)

lemma shift_update:
  "AList.update k (f, t + d) (map (lfu_shift d) xs) = map (lfu_shift d) (AList.update k (f, t) xs)"
  by (induction xs) (auto simp: lfu_shift_def)

lemma shift_delete:
  "AList.delete k (map (lfu_shift d) xs) = map (lfu_shift d) (AList.delete k xs)"
  by (induction xs) (auto simp: lfu_shift_def)

lemma shift_less:
  "(snd (lfu_shift d x) < snd (lfu_shift d y)) = (snd x < snd y)"
  by (cases x; cases y) (auto simp: lfu_shift_def less_prod_def)

lemma shift_le:
  "(snd (lfu_shift d x) \<le> snd (lfu_shift d y)) = (snd x \<le> snd y)"
  by (cases x; cases y) (auto simp: lfu_shift_def less_eq_prod_def)

lemma shift_min_from:
  "min_from snd (lfu_shift d m) (map (lfu_shift d) xs) = lfu_shift d (min_from snd m xs)"
  by (induction xs arbitrary: m) (simp_all add: shift_less)

lemma shift_py_min:
  "py_min snd (map (lfu_shift d) xs) =
     (case py_min snd xs of Inl e \<Rightarrow> Inl e | Inr x \<Rightarrow> Inr (lfu_shift d x))"
  by (cases xs) (simp_all add: py_min_def shift_min_from)

lemma shift_insort:
  "insort_key snd (lfu_shift d x) (map (lfu_shift d) ys) = map (lfu_shift d) (insort_key snd x ys)"
  by (induction ys) (simp_all add: shift_le)

lemma shift_sort:
  "sort_key snd (map (lfu_shift d) xs) = map (lfu_shift d) (sort_key snd xs)"
  by (induction xs) (simp_all add: shift_insort)

lemma shift_dump:
  "map fst (py_sorted_reverse snd (map (lfu_shift d) xs)) = map fst (py_sorted_reverse snd xs)"
proof -
  have "py_sorted_reverse snd (map (lfu_shift d) xs) = map (lfu_shift d) (py_sorted_reverse snd xs)"
    by (simp add: py_sorted_reverse_def rev_map shift_sort)
  then show ?thesis using shift_fst[of d "py_sorted_reverse snd xs"] by simp
qed

lemma lfu_sim_obs:
  assumes "lfu_sim d a b"
  shows "lfu_has k a = lfu_has k b \<and> lfu_len a = lfu_len b \<and> lfu_dump a = lfu_dump b"
proof -
  have c: "lfu_cache a = map (lfu_shift d) (lfu_cache b)" using assms by (simp add: lfu_sim_def)
  have "fst ` set (lfu_cache a) = fst ` set (lfu_cache b)"
    using shift_fst[of d "lfu_cache b"] c by (metis list.set_map)
  then show ?thesis using c by (simp add: lfu_has_def dict_has_def lfu_len_def lfu_dump_def shift_dump)
qed

lemma lfu_get_sim:
  assumes "lfu_sim d a b"
  shows "(\<exists>e. lfu_get k a = Inl e \<and> lfu_get k b = Inl e) \<or>
         (\<exists>f a' b'. lfu_get k a = Inr (f, a') \<and> lfu_get k b = Inr (f, b') \<and> lfu_sim d a' b')"
proof -
  have c: "lfu_cache a = map (lfu_shift d) (lfu_cache b)" using assms by (simp add: lfu_sim_def)
  have h: "lfu_has k a = lfu_has k b" using lfu_sim_obs[OF assms] by simp
  show ?thesis
  proof (cases "lfu_has k b")
    case False
    then have "lfu_get k a = Inr (False, a)" "lfu_get k b = Inr (False, b)"
      using h by (simp_all add: lfu_get_def)
    then show ?thesis using assms by blast
  next
    case True
    show ?thesis
    proof (cases "map_of (lfu_cache b) k")
      case None
      then show ?thesis using True h c by (simp add: lfu_get_def shift_map_of)
    next
      case (Some ft)
      obtain f t where ft: "ft = (f, t)" by (cases ft)
      have ma: "map_of (lfu_cache a) k = Some (f, t + d)" using Some ft c by (simp add: shift_map_of)
      have "lfu_sim d (a\<lparr>lfu_cache := AList.update k (f + 1, t + d) (lfu_cache a)\<rparr>)
                      (b\<lparr>lfu_cache := AList.update k (f + 1, t) (lfu_cache b)\<rparr>)"
        using assms by (simp add: lfu_sim_def shift_update)
      moreover have "lfu_get k a =
          Inr (True, a\<lparr>lfu_cache := AList.update k (f + 1, t + d) (lfu_cache a)\<rparr>)"
        "lfu_get k b = Inr (True, b\<lparr>lfu_cache := AList.update k (f + 1, t) (lfu_cache b)\<rparr>)"
        using True h Some ft ma by (simp_all add: lfu_get_def)
      ultimately show ?thesis by blast
    qed
  qed
qed

lemma lfu_put_sim:
  assumes "lfu_sim d a b"
  shows "(\<exists>e. lfu_put k a = Inl e \<and> lfu_put k b = Inl e) \<or>
         (\<exists>ev a' b'. lfu_put k a = Inr (ev, a') \<and> lfu_put k b = Inr (ev, b') \<and> lfu_sim d a' b')"
proof -
  have c: "lfu_cache a = map (lfu_shift d) (lfu_cache b)" and t: "lfu_t a = lfu_t b + d"
    and m: "lfu_maxlen a = lfu_maxlen b"
    using assms by (simp_all add: lfu_sim_def)
  have h: "lfu_has k a = lfu_has k b" using lfu_sim_obs[OF assms] by simp
  show ?thesis
  proof (cases "lfu_has k b")
    case True
    then have "lfu_put k a = Inr (None, a)" "lfu_put k b = Inr (None, b)"
      using h by (simp_all add: lfu_put_def)
    then show ?thesis using assms by blast
  next
    case False
    let ?cb = "AList.update k (1, lfu_t b + 1) (lfu_cache b)"
    let ?ca = "AList.update k (1, lfu_t a + 1) (lfu_cache a)"
    have ca: "?ca = map (lfu_shift d) ?cb"
      using shift_update[of k 1 "lfu_t b + 1" d "lfu_cache b"] c t by (simp add: add.commute add.left_commute)
    have len: "length ?ca = length ?cb" using ca by simp
    show ?thesis
    proof (cases "int (length ?cb) > lfu_maxlen b")
      case over: False
      have "lfu_sim d (a\<lparr>lfu_t := lfu_t a + 1, lfu_cache := ?ca\<rparr>) (b\<lparr>lfu_t := lfu_t b + 1, lfu_cache := ?cb\<rparr>)"
        using ca t m by (simp add: lfu_sim_def)
      moreover have "lfu_put k a = Inr (None, a\<lparr>lfu_t := lfu_t a + 1, lfu_cache := ?ca\<rparr>)"
        "lfu_put k b = Inr (None, b\<lparr>lfu_t := lfu_t b + 1, lfu_cache := ?cb\<rparr>)"
        using False h over len m by (simp_all add: lfu_put_def Let_def lfu_len_def)
      ultimately show ?thesis by blast
    next
      case over: True
      show ?thesis
      proof (cases "py_min snd ?cb")
        case (Inl e)
        then have "py_min snd ?ca = Inl e" using ca by (simp add: shift_py_min)
        then have "lfu_put k a = Inl e" "lfu_put k b = Inl e"
          using Inl False h over len m by (simp_all add: lfu_put_def Let_def lfu_len_def)
        then show ?thesis by blast
      next
        case (Inr x)
        obtain e f u where x: "x = (e, f, u)" by (cases x)
        have "py_min snd ?ca = Inr (lfu_shift d x)" using ca Inr by (simp add: shift_py_min)
        then have pa: "py_min snd ?ca = Inr (e, f, u + d)" using x by (simp add: lfu_shift_def)
        have "lfu_sim d (a\<lparr>lfu_t := lfu_t a + 1, lfu_cache := AList.delete e ?ca\<rparr>)
                        (b\<lparr>lfu_t := lfu_t b + 1, lfu_cache := AList.delete e ?cb\<rparr>)"
          using ca t m by (simp add: lfu_sim_def shift_delete)
        moreover have
          "lfu_put k a = Inr (Some e, a\<lparr>lfu_t := lfu_t a + 1, lfu_cache := AList.delete e ?ca\<rparr>)"
          "lfu_put k b = Inr (Some e, b\<lparr>lfu_t := lfu_t b + 1, lfu_cache := AList.delete e ?cb\<rparr>)"
          using Inr x pa False h over len m by (simp_all add: lfu_put_def Let_def lfu_len_def)
        ultimately show ?thesis by blast
      qed
    qed
  qed
qed

lemma rand_sim_obs:
  assumes "rand_sim a b"
  shows "randcache_has k a = randcache_has k b \<and> randcache_len a = randcache_len b \<and>
         randcache_dump a = randcache_dump b"
  using assms by (simp add: rand_sim_def randcache_has_def randcache_len_def randcache_dump_def)

lemma np_index_same: "length xs = length ys \<Longrightarrow> np_index xs i = np_index ys i"
  by (simp add: np_index_def)

lemma np_index_bound: "np_index xs i = Inr j \<Longrightarrow> j < length xs"
  by (auto simp: np_index_def Let_def split: if_splits)

lemma np_index_nat: "np_index xs (int n) = Inr j \<Longrightarrow> j = n"
  by (auto simp: np_index_def Let_def split: if_splits)

lemma randcache_put_sim:
  assumes sim: "rand_sim a b"
  shows "(\<exists>e. randcache_put R k (g, a) = Inl e \<and> randcache_put R k (g, b) = Inl e) \<or>
         (\<exists>ev g' a' b'. randcache_put R k (g, a) = Inr (ev, g', a') \<and>
             randcache_put R k (g, b) = Inr (ev, g', b') \<and> rand_sim a' b')"
proof -
  have c: "rand_cache a = rand_cache b" and m: "rand_maxlen a = rand_maxlen b"
    and l: "length (rand_a a) = length (rand_a b)" and la: "int (length (rand_a a)) = rand_maxlen a"
    and tk: "take (length (rand_cache a)) (rand_a a) = take (length (rand_cache a)) (rand_a b)"
    using sim unfolding rand_sim_def by blast+
  show ?thesis
  proof (cases "randcache_has k b")
    case True
    then have "randcache_put R k (g, a) = Inr (None, g, a)" "randcache_put R k (g, b) = Inr (None, g, b)"
      using c by (simp_all add: randcache_put_def randcache_has_def)
    then show ?thesis using sim by blast
  next
    case False
    then have ha: "\<not> randcache_has k a" using c by (simp add: randcache_has_def)
    show ?thesis
    proof (cases "randcache_len b = rand_maxlen b")
      case full: True
      have "length (rand_cache a) = length (rand_a a)"
        using full c m la by (simp add: randcache_len_def)
      then have arr: "rand_a a = rand_a b" using tk l by simp
      have ab: "a = b" using c m arr by simp
      show ?thesis
      proof (cases "randcache_put R k (g, b)")
        case (Inl e)
        then show ?thesis using ab by blast
      next
        case (Inr r)
        obtain ev g' b' where r: "r = (ev, g', b')" by (cases r)
        have keep: "rand_maxlen b' = rand_maxlen b \<and> length (rand_a b') = length (rand_a b)"
          using Inr r False full
          by (auto simp: randcache_put_def Let_def case_prod_beta dest!: ebind_Inr
              split: if_splits option.splits)
        have "rand_sim b' b'" using keep la l m ab by (simp add: rand_sim_def)
        then show ?thesis using Inr r ab by blast
      qed
    next
      case notfull: False
      then have nfa: "randcache_len a \<noteq> rand_maxlen a" using c m by (simp add: randcache_len_def)
      have lena: "randcache_len a = randcache_len b" using c by (simp add: randcache_len_def)
      have ix: "np_index (rand_a a) (randcache_len a) = np_index (rand_a b) (randcache_len b)"
        using np_index_same[OF l] lena by simp
      show ?thesis
      proof (cases "np_index (rand_a b) (randcache_len b)")
        case (Inl e)
        then have "randcache_put R k (g, a) = Inl e" "randcache_put R k (g, b) = Inl e"
          using False ha notfull nfa ix by (simp_all add: randcache_put_def)
        then show ?thesis by blast
      next
        case (Inr i)
        have i: "i = length (rand_cache b)" "i < length (rand_a b)"
          using np_index_nat[of "rand_a b" "length (rand_cache b)" i] np_index_bound[OF Inr] Inr
          by (simp_all add: randcache_len_def)
        let ?a' = "a\<lparr>rand_a := (rand_a a)[i := Some k], rand_cache := set_add k (rand_cache a)\<rparr>"
        let ?b' = "b\<lparr>rand_a := (rand_a b)[i := Some k], rand_cache := set_add k (rand_cache b)\<rparr>"
        have pa: "randcache_put R k (g, a) = Inr (None, g, ?a')"
          using ha nfa ix Inr by (simp add: randcache_put_def Let_def)
        have pb: "randcache_put R k (g, b) = Inr (None, g, ?b')"
          using False notfull Inr by (simp add: randcache_put_def Let_def)
        have sa: "set_add k (rand_cache b) = rand_cache b @ [k]"
          using False by (simp add: set_add_def randcache_has_def)
        have t1: "take (Suc i) ((rand_a a)[i := Some k]) = take i (rand_a a) @ [Some k]"
          using i l by (simp add: take_Suc_conv_app_nth)
        have t2: "take (Suc i) ((rand_a b)[i := Some k]) = take i (rand_a b) @ [Some k]"
          using i by (simp add: take_Suc_conv_app_nth)
        have "rand_sim ?a' ?b'"
          using c m l la tk sa t1 t2 i by (simp add: rand_sim_def)
        then show ?thesis using pa pb by blast
      qed
    qed
  qed
qed

lemma lru_sim_obs:
  assumes "lru_sim a b"
  shows "lru_has k a = lru_has k b \<and> lru_len a = lru_len b \<and> lru_dump a = lru_dump b"
proof -
  obtain as bs ks where r: "lru_rep a as ks" "lru_rep b bs ks"
    using assms unfolding lru_sim_def by (elim exE conjE)
  show ?thesis
    using rep_has[OF r(1), of k] rep_has[OF r(2), of k] rep_len[OF r(1)] rep_len[OF r(2)]
      lru_dump_rep[OF r(1)] lru_dump_rep[OF r(2)] by simp
qed

lemma lru_get_sim:
  assumes "lru_sim a b"
  shows "\<exists>f a' b'. lru_get k a = Inr (f, a') \<and> lru_get k b = Inr (f, b') \<and> lru_sim a' b'"
proof -
  obtain as bs ks where r: "lru_rep a as ks" "lru_rep b bs ks"
    and m: "lru_maxlen a = lru_maxlen b" "1 \<le> lru_maxlen a"
    using assms unfolding lru_sim_def by (elim exE conjE)
  let ?ks = "if k \<in> set ks then k # remove1 k ks else ks"
  obtain a' as' where ga: "lru_get k a = Inr (k \<in> set ks, a')" "lru_rep a' as' ?ks"
    "lru_maxlen a' = lru_maxlen a"
    using lru_get_rep[OF r(1), of k] by (elim exE conjE)
  obtain b' bs' where gb: "lru_get k b = Inr (k \<in> set ks, b')" "lru_rep b' bs' ?ks"
    "lru_maxlen b' = lru_maxlen b"
    using lru_get_rep[OF r(2), of k] by (elim exE conjE)
  have "lru_sim a' b'" unfolding lru_sim_def
    using ga(2,3) gb(2,3) m by (intro exI[of _ as'] exI[of _ bs'] exI[of _ ?ks]) simp
  then show ?thesis using ga(1) gb(1) by blast
qed

lemma lru_put_rep_det:
  assumes r: "lru_rep s as ks" and cap: "1 \<le> lru_maxlen s"
  shows "\<exists>s' as'. lru_put k s =
           Inr (if k \<in> set ks \<or> int (length ks) + 1 \<le> lru_maxlen s then None
                else Some (last ks), s') \<and>
           lru_maxlen s' = lru_maxlen s \<and>
           lru_rep s' as' (if k \<in> set ks then k # remove1 k ks
                           else if int (length ks) + 1 \<le> lru_maxlen s then k # ks
                           else k # butlast ks)"
proof -
  obtain ev s' as' where p: "lru_put k s = Inr (ev, s')" "lru_maxlen s' = lru_maxlen s"
    "if k \<in> set ks then ev = None \<and> lru_rep s' as' (k # remove1 k ks)
     else if int (length ks) + 1 \<le> lru_maxlen s then ev = None \<and> lru_rep s' as' (k # ks)
     else ev = Some (last ks) \<and> lru_rep s' as' (k # butlast ks)"
    using lru_put_rep[OF r cap, of k] by (elim exE conjE)
  show ?thesis
    using p by (intro exI[of _ s'] exI[of _ as']) (simp split: if_splits)
qed

lemma lru_put_sim:
  assumes "lru_sim a b"
  shows "\<exists>ev a' b'. lru_put k a = Inr (ev, a') \<and> lru_put k b = Inr (ev, b') \<and> lru_sim a' b'"
proof -
  obtain as bs ks where r: "lru_rep a as ks" "lru_rep b bs ks"
    and m: "lru_maxlen a = lru_maxlen b" "1 \<le> lru_maxlen a"
    using assms unfolding lru_sim_def by (elim exE conjE)
  have mb: "1 \<le> lru_maxlen b" using m by simp
  let ?ev = "if k \<in> set ks \<or> int (length ks) + 1 \<le> lru_maxlen a then None else Some (last ks)"
  let ?ks = "if k \<in> set ks then k # remove1 k ks
             else if int (length ks) + 1 \<le> lru_maxlen a then k # ks else k # butlast ks"
  obtain a' as' where pa: "lru_put k a = Inr (?ev, a')" "lru_maxlen a' = lru_maxlen a"
    "lru_rep a' as' ?ks"
    using lru_put_rep_det[OF r(1) m(2), of k] by (elim exE conjE)
  obtain b' bs' where pb: "lru_put k b = Inr (?ev, b')" "lru_maxlen b' = lru_maxlen b"
    "lru_rep b' bs' ?ks"
    using lru_put_rep_det[OF r(2) mb, of k] unfolding m(1)[symmetric] by (elim exE conjE)
  have "lru_sim a' b'" unfolding lru_sim_def
    using pa(2,3) pb(2,3) m by (intro exI[of _ as'] exI[of _ bs'] exI[of _ ?ks]) simp
  then show ?thesis using pa(1) pb(1) by blast
qed

lemma lru_clear_sim:
  assumes "lru_sim a b"
  shows "lru_sim (lru_clear a) (lru_clear b)"
proof -
  obtain as bs ks where r: "lru_rep a as ks" "lru_rep b bs ks"
    and m: "lru_maxlen a = lru_maxlen b" "1 \<le> lru_maxlen a"
    using assms unfolding lru_sim_def by (elim exE conjE)
  have "lru_rep (lru_clear a) [] []" "lru_rep (lru_clear b) [] []"
    by (simp_all add: lru_rep_def lru_clear_def)
  then show ?thesis unfolding lru_sim_def
    using m by (intro exI[of _ "[]"]) (simp add: lru_clear_def)
qed

lemma cache_sim_obs:
  assumes "cache_sim a b"
  shows "cache_has k a = cache_has k b \<and> cache_len a = cache_len b \<and>
         cache_dump a = cache_dump b"
proof (cases a)
  case Null
  then show ?thesis using assms by (cases b) simp_all
next
  case (Lru x)
  then obtain y where y: "b = Lru y" "lru_sim x y" using assms by (cases b) simp_all
  show ?thesis using lru_sim_obs[OF y(2), of k] Lru y(1) by simp
next
  case (Lfu x)
  then obtain y d where y: "b = Lfu y" "lfu_sim d x y" using assms by (cases b) auto
  show ?thesis using lfu_sim_obs[OF y(2), of k] Lfu y(1) by simp
next
  case (Fifo x)
  then show ?thesis using assms by (cases b) simp_all
next
  case (Rand x)
  then obtain y where y: "b = Rand y" "rand_sim x y" using assms by (cases b) simp_all
  show ?thesis using rand_sim_obs[OF y(2), of k] Rand y(1) by simp
qed

lemma cache_get_sim:
  assumes "cache_sim a b"
  shows "(\<exists>e. cache_get k (g, a) = Inl e \<and> cache_get k (g, b) = Inl e) \<or>
         (\<exists>f a' b'. cache_get k (g, a) = Inr (f, g, a') \<and> cache_get k (g, b) = Inr (f, g, b') \<and>
             cache_sim a' b')"
proof (cases a)
  case Null
  then show ?thesis using assms by (cases b) simp_all
next
  case (Lru x)
  then obtain y where y: "b = Lru y" "lru_sim x y" using assms by (cases b) simp_all
  obtain f x' y' where "lru_get k x = Inr (f, x')" "lru_get k y = Inr (f, y')" "lru_sim x' y'"
    using lru_get_sim[OF y(2), of k] by (elim exE conjE)
  then have "cache_get k (g, a) = Inr (f, g, Lru x')" "cache_get k (g, b) = Inr (f, g, Lru y')"
    "cache_sim (Lru x') (Lru y')"
    using Lru y(1) by simp_all
  then show ?thesis by blast
next
  case (Lfu x)
  then obtain y d where y: "b = Lfu y" "lfu_sim d x y" using assms by (cases b) auto
  from lfu_get_sim[OF y(2), of k] show ?thesis
  proof (elim disjE exE conjE)
    fix e assume "lfu_get k x = Inl e" "lfu_get k y = Inl e"
    then have "cache_get k (g, a) = Inl e" "cache_get k (g, b) = Inl e" using Lfu y(1) by simp_all
    then show ?thesis by blast
  next
    fix f x' y' assume "lfu_get k x = Inr (f, x')" "lfu_get k y = Inr (f, y')" "lfu_sim d x' y'"
    then have "cache_get k (g, a) = Inr (f, g, Lfu x')" "cache_get k (g, b) = Inr (f, g, Lfu y')"
      "cache_sim (Lfu x') (Lfu y')"
      using Lfu y(1) by auto
    then show ?thesis by blast
  qed
next
  case (Fifo x)
  then have "b = Fifo x" using assms by (cases b) simp_all
  then have "cache_get k (g, a) = Inr (fifo_get k x, g, Fifo x)"
    "cache_get k (g, b) = Inr (fifo_get k x, g, Fifo x)" "cache_sim (Fifo x) (Fifo x)"
    using Fifo by simp_all
  then show ?thesis by blast
next
  case (Rand x)
  then obtain y where y: "b = Rand y" "rand_sim x y" using assms by (cases b) simp_all
  have "randcache_get k x = randcache_get k y"
    using rand_sim_obs[OF y(2), of k] by (simp add: randcache_get_def)
  then have "cache_get k (g, a) = Inr (randcache_get k x, g, Rand x)"
    "cache_get k (g, b) = Inr (randcache_get k x, g, Rand y)" "cache_sim (Rand x) (Rand y)"
    using Rand y by simp_all
  then show ?thesis by blast
qed

lemma cache_put_sim:
  assumes "cache_sim a b"
  shows "(\<exists>e. cache_put R k (g, a) = Inl e \<and> cache_put R k (g, b) = Inl e) \<or>
         (\<exists>ev g' a' b'. cache_put R k (g, a) = Inr (ev, g', a') \<and>
             cache_put R k (g, b) = Inr (ev, g', b') \<and> cache_sim a' b')"
proof (cases a)
  case Null
  then have "b = Null" using assms by (cases b) simp_all
  then have "cache_put R k (g, a) = Inr (null_put k, g, Null)"
    "cache_put R k (g, b) = Inr (null_put k, g, Null)" "cache_sim (Null :: 'a cache) Null"
    using Null by simp_all
  then show ?thesis by blast
next
  case (Lru x)
  then obtain y where y: "b = Lru y" "lru_sim x y" using assms by (cases b) simp_all
  obtain ev x' y' where "lru_put k x = Inr (ev, x')" "lru_put k y = Inr (ev, y')" "lru_sim x' y'"
    using lru_put_sim[OF y(2), of k] by (elim exE conjE)
  then have "cache_put R k (g, a) = Inr (ev, g, Lru x')" "cache_put R k (g, b) = Inr (ev, g, Lru y')"
    "cache_sim (Lru x') (Lru y')"
    using Lru y(1) by simp_all
  then show ?thesis by blast
next
  case (Lfu x)
  then obtain y d where y: "b = Lfu y" "lfu_sim d x y" using assms by (cases b) auto
  from lfu_put_sim[OF y(2), of k] show ?thesis
  proof (elim disjE exE conjE)
    fix e assume "lfu_put k x = Inl e" "lfu_put k y = Inl e"
    then have "cache_put R k (g, a) = Inl e" "cache_put R k (g, b) = Inl e" using Lfu y(1) by simp_all
    then show ?thesis by blast
  next
    fix ev x' y' assume "lfu_put k x = Inr (ev, x')" "lfu_put k y = Inr (ev, y')" "lfu_sim d x' y'"
    then have "cache_put R k (g, a) = Inr (ev, g, Lfu x')" "cache_put R k (g, b) = Inr (ev, g, Lfu y')"
      "cache_sim (Lfu x') (Lfu y')"
      using Lfu y(1) by auto
    then show ?thesis by blast
  qed
next
  case (Fifo x)
  then have b: "b = Fifo x" using assms by (cases b) simp_all
  show ?thesis
  proof (cases "fifo_put k x")
    case (Inl e)
    then have "cache_put R k (g, a) = Inl e" "cache_put R k (g, b) = Inl e" using Fifo b by simp_all
    then show ?thesis by blast
  next
    case (Inr r)
    obtain ev x' where "r = (ev, x')" by (cases r)
    then have "cache_put R k (g, a) = Inr (ev, g, Fifo x')" "cache_put R k (g, b) = Inr (ev, g, Fifo x')"
      "cache_sim (Fifo x') (Fifo x')"
      using Inr Fifo b by simp_all
    then show ?thesis by blast
  qed
next
  case (Rand x)
  then obtain y where y: "b = Rand y" "rand_sim x y" using assms by (cases b) simp_all
  from randcache_put_sim[OF y(2), of R k g] show ?thesis
  proof (elim disjE exE conjE)
    fix e assume "randcache_put R k (g, x) = Inl e" "randcache_put R k (g, y) = Inl e"
    then have "cache_put R k (g, a) = Inl e" "cache_put R k (g, b) = Inl e" using Rand y(1) by simp_all
    then show ?thesis by blast
  next
    fix ev g' x' y'
    assume "randcache_put R k (g, x) = Inr (ev, g', x')" "randcache_put R k (g, y) = Inr (ev, g', y')"
      "rand_sim x' y'"
    then have "cache_put R k (g, a) = Inr (ev, g', Rand x')"
      "cache_put R k (g, b) = Inr (ev, g', Rand y')" "cache_sim (Rand x') (Rand y')"
      using Rand y(1) by simp_all
    then show ?thesis by blast
  qed
qed

lemma cache_clear_sim:
  assumes "cache_sim a b"
  shows "\<exists>a' b'. cache_clear (g, a) = (g, a') \<and> cache_clear (g, b) = (g, b') \<and> cache_sim a' b'"
proof (cases a)
  case Null
  then show ?thesis using assms by (cases b) simp_all
next
  case (Lru x)
  then obtain y where y: "b = Lru y" "lru_sim x y" using assms by (cases b) simp_all
  show ?thesis using lru_clear_sim[OF y(2)] Lru y(1) by simp
next
  case (Lfu x)
  then obtain y d where y: "b = Lfu y" "lfu_sim d x y" using assms by (cases b) auto
  have "lfu_sim d (lfu_clear x) (lfu_clear y)" using y(2) by (simp add: lfu_sim_def lfu_clear_def)
  then have "cache_sim (Lfu (lfu_clear x)) (Lfu (lfu_clear y))" by auto
  then show ?thesis using Lfu y(1) by simp
next
  case (Fifo x)
  then show ?thesis using assms by (cases b) simp_all
next
  case (Rand x)
  then obtain y where y: "b = Rand y" "rand_sim x y" using assms by (cases b) simp_all
  have "rand_sim (randcache_clear x) (randcache_clear y)"
    using y(2) by (simp add: rand_sim_def randcache_clear_def)
  then show ?thesis using Rand y(1) by simp
qed

lemma cache_query_sim:
  assumes sim: "cache_sim a b"
  shows "(cache_query R q (g, a) = None \<and> cache_query R q (g, b) = None) \<or>
         (\<exists>e. cache_query R q (g, a) = Some (Inl e) \<and> cache_query R q (g, b) = Some (Inl e)) \<or>
         (\<exists>ans g' a' b'. cache_query R q (g, a) = Some (Inr (ans, g', a')) \<and>
             cache_query R q (g, b) = Some (Inr (ans, g', b')) \<and> cache_sim a' b')"
proof (cases q)
  case (Call cl)
  show ?thesis
  proof (cases cl)
    case (Get k)
    from cache_get_sim[OF sim, of k g] show ?thesis
    proof (elim disjE exE conjE)
      fix e assume "cache_get k (g, a) = Inl e" "cache_get k (g, b) = Inl e"
      then have "cache_query R q (g, a) = Some (Inl e)" "cache_query R q (g, b) = Some (Inl e)"
        using Call Get by simp_all
      then show ?thesis by blast
    next
      fix f a' b'
      assume "cache_get k (g, a) = Inr (f, g, a')" "cache_get k (g, b) = Inr (f, g, b')"
        and s: "cache_sim a' b'"
      then have "cache_query R q (g, a) = Some (Inr (Found f, g, a'))"
        "cache_query R q (g, b) = Some (Inr (Found f, g, b'))"
        using Call Get by simp_all
      then show ?thesis using s by blast
    qed
  next
    case (Put k)
    from cache_put_sim[OF sim, of R k g] show ?thesis
    proof (elim disjE exE conjE)
      fix e assume "cache_put R k (g, a) = Inl e" "cache_put R k (g, b) = Inl e"
      then have "cache_query R q (g, a) = Some (Inl e)" "cache_query R q (g, b) = Some (Inl e)"
        using Call Put by simp_all
      then show ?thesis by blast
    next
      fix ev g' a' b'
      assume "cache_put R k (g, a) = Inr (ev, g', a')" "cache_put R k (g, b) = Inr (ev, g', b')"
        and s: "cache_sim a' b'"
      then have "cache_query R q (g, a) = Some (Inr (Evicted ev, g', a'))"
        "cache_query R q (g, b) = Some (Inr (Evicted ev, g', b'))"
        using Call Put by simp_all
      then show ?thesis using s by blast
    qed
  next
    case Clear
    obtain a' b' where "cache_clear (g, a) = (g, a')" "cache_clear (g, b) = (g, b')"
      and s: "cache_sim a' b'"
      using cache_clear_sim[OF sim, of g] by (elim exE conjE)
    then have "cache_query R q (g, a) = Some (Inr (Cleared, g, a'))"
      "cache_query R q (g, b) = Some (Inr (Cleared, g, b'))"
      using Call Clear by simp_all
    then show ?thesis using s by blast
  qed
next
  case (Has k)
  have "cache_query R q (g, a) = Some (Inr (Member (cache_has k a), g, a))"
    "cache_query R q (g, b) = Some (Inr (Member (cache_has k a), g, b))"
    using Has cache_sim_obs[OF sim, of k] by simp_all
  then show ?thesis using sim by blast
next
  case Len
  have "cache_query R q (g, a) = Some (Inr (Size (cache_len a), g, a))"
    "cache_query R q (g, b) = Some (Inr (Size (cache_len a), g, b))"
    using Len cache_sim_obs[OF sim] by simp_all
  then show ?thesis using sim by blast
next
  case Dump
  have d: "cache_dump a = cache_dump b" using cache_sim_obs[OF sim] by simp
  show ?thesis
  proof (cases "cache_dump b")
    case None
    then show ?thesis using d Dump by simp
  next
    case (Some r)
    show ?thesis
    proof (cases r)
      case (Inl e)
      then have "cache_query R q (g, a) = Some (Inl e)" "cache_query R q (g, b) = Some (Inl e)"
        using Some d Dump by simp_all
      then show ?thesis by blast
    next
      case (Inr ks)
      then have "cache_query R q (g, a) = Some (Inr (Snapshot ks, g, a))"
        "cache_query R q (g, b) = Some (Inr (Snapshot ks, g, b))"
        using Some d Dump by simp_all
      then show ?thesis using sim by blast
    qed
  qed
qed

lemma cache_answers_sim:
  "cache_sim a b \<Longrightarrow> cache_answers R qs (g, a) = cache_answers R qs (g, b)"
proof (induction qs arbitrary: g a b)
  case Nil
  then show ?case by simp
next
  case (Cons q qs)
  from cache_query_sim[OF Cons.prems, of R q g] show ?case
  proof (elim disjE exE conjE)
    assume "cache_query R q (g, a) = None" "cache_query R q (g, b) = None"
    then show ?thesis by simp
  next
    fix e assume "cache_query R q (g, a) = Some (Inl e)" "cache_query R q (g, b) = Some (Inl e)"
    then show ?thesis by simp
  next
    fix ans g' a' b'
    assume "cache_query R q (g, a) = Some (Inr (ans, g', a'))"
      "cache_query R q (g, b) = Some (Inr (ans, g', b'))" "cache_sim a' b'"
    then show ?thesis using Cons.IH[of a' b' g'] by simp
  qed
qed

lemma clear_sim_fresh:
  assumes n: "new_cache pol C = Inr c0" and inv: "cache_inv c1" and p: "policy_of c1 = pol"
    and m: "cache_maxlen c1 = cache_maxlen c0"
  shows "cache_sim (snd (cache_clear (g, c1))) c0"
proof (cases c1)
  case Null
  then have "pol = NULL" using p by simp
  then show ?thesis using n Null by simp
next
  case (Lru s)
  then have "pol = LRU" using p by simp
  then obtain s0 where s0: "LruCache C = Inr s0" "c0 = Lru s0"
    using n by (cases "LruCache C :: error + 'a lru") auto
  have f: "s0 = \<lparr>lru_cache = [], lru_bottom = None, lru_top = None, lru_maxlen = C,
                  lru_heap = Map.empty, lru_next = 0\<rparr>" and C: "0 < C"
    using s0(1) by (simp_all add: LruCache_def Let_def split: if_splits)
  have r0: "lru_rep s0 [] []" using f by (simp add: lru_rep_def)
  have r1: "lru_rep (lru_clear s) [] []" by (simp add: lru_rep_def lru_clear_def)
  have mm: "lru_maxlen (lru_clear s) = lru_maxlen s0" using m Lru s0(2) by (simp add: lru_clear_def)
  have "lru_sim (lru_clear s) s0" unfolding lru_sim_def
    using r0 r1 mm f C by (intro exI[of _ "[]"]) simp
  then show ?thesis using Lru s0(2) by simp
next
  case (Lfu s)
  then have "pol = LFU" using p by simp
  then obtain s0 where s0: "LfuCache C = Inr s0" "c0 = Lfu s0"
    using n by (cases "LfuCache C :: error + 'a lfu") auto
  have f: "s0 = \<lparr>lfu_cache = [], lfu_t = 0, lfu_maxlen = C\<rparr>"
    using s0(1) by (simp add: LfuCache_def Let_def split: if_splits)
  have "lfu_sim (lfu_t s) (lfu_clear s) s0"
    using m Lfu s0(2) f by (simp add: lfu_sim_def lfu_clear_def)
  then have "cache_sim (Lfu (lfu_clear s)) (Lfu s0)" by auto
  then show ?thesis using Lfu s0(2) by simp
next
  case (Fifo s)
  then have "pol = FIFO" using p by simp
  then obtain s0 where s0: "FifoCache C = Inr s0" "c0 = Fifo s0"
    using n by (cases "FifoCache C :: error + 'a fifo") auto
  have f: "s0 = \<lparr>fifo_cache = [], fifo_maxlen = C, fifo_d = []\<rparr>"
    using s0(1) by (simp add: FifoCache_def Let_def split: if_splits)
  have "fifo_clear s = s0" using m Fifo s0(2) f by (simp add: fifo_clear_def)
  then show ?thesis using Fifo s0(2) by simp
next
  case (Rand s)
  then have "pol = RAND" using p by simp
  then obtain s0 where s0: "RandCache C = Inr s0" "c0 = Rand s0"
    using n by (cases "RandCache C :: error + 'a rand") auto
  have f: "s0 = \<lparr>rand_cache = [], rand_a = replicate (nat C) None, rand_maxlen = C\<rparr>" and C: "0 < C"
    using s0(1) by (auto simp: RandCache_def np_empty_def Let_def split: if_splits)
  have la: "int (length (rand_a s)) = rand_maxlen s" using inv Rand by (simp add: rand_inv_def)
  have mm: "rand_maxlen s = C" using m Rand s0(2) f by simp
  have "rand_sim (randcache_clear s) s0"
    using la mm f C by (simp add: rand_sim_def randcache_clear_def)
  then show ?thesis using Rand s0(2) by simp
qed

lemma new_cache_fields:
  assumes "new_cache pol C = Inr c0"
  shows "c0 = (case pol of
           NULL \<Rightarrow> Null
         | LRU \<Rightarrow> Lru \<lparr>lru_cache = [], lru_bottom = None, lru_top = None, lru_maxlen = C,
                        lru_heap = Map.empty, lru_next = 0\<rparr>
         | LFU \<Rightarrow> Lfu \<lparr>lfu_cache = [], lfu_t = 0, lfu_maxlen = C\<rparr>
         | FIFO \<Rightarrow> Fifo \<lparr>fifo_cache = [], fifo_maxlen = C, fifo_d = []\<rparr>
         | RAND \<Rightarrow> Rand \<lparr>rand_cache = [], rand_a = replicate (nat C) None, rand_maxlen = C\<rparr>)"
  using assms
  by (cases pol)
    (auto simp: LruCache_def LfuCache_def FifoCache_def RandCache_def np_empty_def Let_def
      split: if_splits)

text \<open>
  Claim C4, as amended. Let a cache of any policy be constructed with capacity
  \<open>C\<close> and used by any calls, and then cleared. It is empty: its size is 0, its
  snapshot is empty and it contains no key; its capacity and policy are unchanged.
  \<open>NullCache.clear\<close>, \<open>FifoCache.clear\<close> and \<open>LruCache.clear\<close> leave every
  field as the constructor sets it (in the model the nodes that \<open>LruCache\<close> has
  allocated stay in the store, out of reach). \<open>LfuCache.clear\<close> keeps the
  sequence counter \<open>t\<close> and \<open>RandCache.clear\<close> keeps the contents of the slot
  array \<open>a\<close>, where the constructor sets \<open>t = 0\<close> and leaves every slot
  unwritten. The cleared cache is observationally identical to a fresh one of the same
  capacity: from the same state of the generator, every sequence of \<open>get\<close>,
  \<open>put\<close>, \<open>clear\<close>, \<open>has\<close>, \<open>len\<close> and \<open>dump\<close> gives the same
  results on both.
\<close>

theorem clear_like_fresh:
  assumes R: "random_in_range R"
    and n: "new_cache pol C = Inr c0"
    and run: "cache_run R cs (g0, c0) = Inr (g1, c1)"
  shows "\<exists>c2. cache_clear (g1, c1) = (g1, c2) \<and>
     cache_len c2 = 0 \<and> cache_dump c2 = Some (Inr []) \<and> (\<forall>k. \<not> cache_has k c2) \<and>
     cache_maxlen c2 = cache_maxlen c0 \<and> policy_of c2 = pol \<and>
     c0 = (case pol of
             NULL \<Rightarrow> Null
           | LRU \<Rightarrow> Lru \<lparr>lru_cache = [], lru_bottom = None, lru_top = None, lru_maxlen = C,
                          lru_heap = Map.empty, lru_next = 0\<rparr>
           | LFU \<Rightarrow> Lfu \<lparr>lfu_cache = [], lfu_t = 0, lfu_maxlen = C\<rparr>
           | FIFO \<Rightarrow> Fifo \<lparr>fifo_cache = [], fifo_maxlen = C, fifo_d = []\<rparr>
           | RAND \<Rightarrow> Rand \<lparr>rand_cache = [], rand_a = replicate (nat C) None, rand_maxlen = C\<rparr>) \<and>
     c2 = (case c1 of
             Null \<Rightarrow> Null
           | Lru s \<Rightarrow> Lru \<lparr>lru_cache = [], lru_bottom = None, lru_top = None, lru_maxlen = C,
                            lru_heap = lru_heap s, lru_next = lru_next s\<rparr>
           | Lfu s \<Rightarrow> Lfu \<lparr>lfu_cache = [], lfu_t = lfu_t s, lfu_maxlen = C\<rparr>
           | Fifo s \<Rightarrow> Fifo \<lparr>fifo_cache = [], fifo_maxlen = C, fifo_d = []\<rparr>
           | Rand s \<Rightarrow> Rand \<lparr>rand_cache = [], rand_a = rand_a s, rand_maxlen = C\<rparr>) \<and>
     (\<forall>qs g. cache_answers R qs (g, c2) = cache_answers R qs (g, c0))"
proof -
  have i0: "cache_inv c0" "policy_of c0 = pol" "pol \<noteq> NULL \<longrightarrow> cache_maxlen c0 = C"
    using new_cache_inv[OF n] by simp_all
  obtain g' c' where r: "cache_run R cs (g0, c0) = Inr (g', c')" "cache_inv c'"
    "cache_maxlen c' = cache_maxlen c0" "policy_of c' = policy_of c0"
    using cache_run_inv[OF R i0(1), of cs g0] by (elim exE conjE)
  have i1: "cache_inv c1" "cache_maxlen c1 = cache_maxlen c0" "policy_of c1 = pol"
    using r run i0(2) by simp_all
  obtain c2 where c2: "cache_clear (g1, c1) = (g1, c2)" "cache_inv c2"
    "cache_maxlen c2 = cache_maxlen c1" "policy_of c2 = policy_of c1"
    "\<forall>k'. \<not> cache_has k' c2" "cache_len c2 = 0"
    using cache_clear_contract[OF i1(1), of g1] by (elim exE conjE)
  have sim: "cache_sim c2 c0"
    using clear_sim_fresh[OF n i1(1) i1(3) i1(2), of g1] c2(1) by simp
  have d0: "cache_dump c0 = Some (Inr [])"
    unfolding new_cache_fields[OF n]
    by (cases pol)
      (simp_all add: null_dump_def lfu_dump_def py_sorted_reverse_def fifo_dump_def
        randcache_dump_def lru_dump_def dump_loop.simps)
  have dump: "cache_dump c2 = Some (Inr [])" using cache_sim_obs[OF sim] d0 by simp
  have mC: "pol \<noteq> NULL \<longrightarrow> cache_maxlen c1 = C" using i1(2) i0(3) by simp
  have fields: "c2 = (case c1 of
             Null \<Rightarrow> Null
           | Lru s \<Rightarrow> Lru \<lparr>lru_cache = [], lru_bottom = None, lru_top = None, lru_maxlen = C,
                            lru_heap = lru_heap s, lru_next = lru_next s\<rparr>
           | Lfu s \<Rightarrow> Lfu \<lparr>lfu_cache = [], lfu_t = lfu_t s, lfu_maxlen = C\<rparr>
           | Fifo s \<Rightarrow> Fifo \<lparr>fifo_cache = [], fifo_maxlen = C, fifo_d = []\<rparr>
           | Rand s \<Rightarrow> Rand \<lparr>rand_cache = [], rand_a = rand_a s, rand_maxlen = C\<rparr>)"
    using c2(1) mC i1(3)
    by (cases c1) (auto simp: lru_clear_def lfu_clear_def fifo_clear_def randcache_clear_def)
  have ans: "\<forall>qs g. cache_answers R qs (g, c2) = cache_answers R qs (g, c0)"
    by (intro allI cache_answers_sim[OF sim])
  show ?thesis
    using c2(1) c2(6) dump c2(5) c2(3) i1(2) c2(4) i1(3) new_cache_fields[OF n] fields ans
    by (intro exI[of _ c2] conjI) simp_all
qed

theorem clear_like_fresh_witness:
  "cache_clear (0::nat, Lfu \<lparr>lfu_cache = [(''A'', 1, 1)], lfu_t = 1, lfu_maxlen = 2\<rparr>) =
     (0, Lfu \<lparr>lfu_cache = [], lfu_t = 1, lfu_maxlen = 2\<rparr>) \<and>
   cache_answers counter_random [Call (Put ''B''), Call (Put ''C''), Call (Put ''D''), Dump]
       (0, Lfu \<lparr>lfu_cache = [], lfu_t = 1, lfu_maxlen = 2\<rparr>) =
     cache_answers counter_random [Call (Put ''B''), Call (Put ''C''), Call (Put ''D''), Dump]
       (0, Lfu \<lparr>lfu_cache = [], lfu_t = 0, lfu_maxlen = 2\<rparr>) \<and>
   cache_answers counter_random [Call (Put ''B''), Call (Put ''C''), Call (Put ''D''), Dump]
       (0::nat, Lfu \<lparr>lfu_cache = [], lfu_t = 0, lfu_maxlen = 2\<rparr>) =
     [Some (Inr (Evicted None)), Some (Inr (Evicted None)), Some (Inr (Evicted (Some ''B''))),
      Some (Inr (Snapshot [''D'', ''C'']))]"
proof -
  let ?c0 = "Lfu \<lparr>lfu_cache = [], lfu_t = 0, lfu_maxlen = 2\<rparr> :: string cache"
  let ?c1 = "Lfu \<lparr>lfu_cache = [(''A'', 1, 1)], lfu_t = 1, lfu_maxlen = 2\<rparr> :: string cache"
  have n: "new_cache LFU 2 = Inr ?c0" by (simp add: LfuCache_def)
  have run: "cache_run counter_random [Put ''A''] (0::nat, ?c0) = Inr (0, ?c1)"
    by (simp add: lfu_put_def lfu_has_def dict_has_def lfu_len_def Let_def)
  obtain c2 where c2: "cache_clear (0::nat, ?c1) = (0, c2)"
    "\<forall>qs g. cache_answers counter_random qs (g, c2) = cache_answers counter_random qs (g, ?c0)"
    using clear_like_fresh[OF counter_random_in_range n run] by (elim exE conjE)
  have e: "c2 = Lfu \<lparr>lfu_cache = [], lfu_t = 1, lfu_maxlen = 2\<rparr>"
    using c2(1) by (simp add: lfu_clear_def)
  have a: "cache_clear (0::nat, ?c1) = (0, Lfu \<lparr>lfu_cache = [], lfu_t = 1, lfu_maxlen = 2\<rparr>)"
    by (simp add: lfu_clear_def)
  have b: "cache_answers counter_random
             [Call (Put ''B''), Call (Put ''C''), Call (Put ''D''), Dump] (0, c2) =
           cache_answers counter_random
             [Call (Put ''B''), Call (Put ''C''), Call (Put ''D''), Dump] (0, ?c0)"
    using c2(2) by blast
  have c: "cache_answers counter_random
             [Call (Put ''B''), Call (Put ''C''), Call (Put ''D''), Dump] (0::nat, ?c0) =
           [Some (Inr (Evicted None)), Some (Inr (Evicted None)), Some (Inr (Evicted (Some ''B''))),
            Some (Inr (Snapshot [''D'', ''C'']))]"
    by (simp add: lfu_put_def lfu_has_def dict_has_def lfu_len_def Let_def py_min_def
        lfu_dump_def py_sorted_reverse_def less_prod_def less_eq_prod_def)
  show ?thesis using a b[unfolded e] c by (intro conjI)
qed

text \<open>
  Claim C4 as it is stated fails. After \<open>put('A')\<close> and \<open>clear()\<close> an
  \<open>LfuCache\<close> of capacity 2 has \<open>t = 1\<close>, where the constructor sets
  \<open>t = 0\<close>; a \<open>RandCache\<close> of capacity 2 has \<open>'A'\<close> in the first slot of
  \<open>a\<close>, where the constructor leaves both slots unwritten.
\<close>

theorem clear_like_fresh_counterexample:
  "new_cache LFU 2 = Inr (Lfu \<lparr>lfu_cache = [], lfu_t = 0, lfu_maxlen = 2\<rparr> :: string cache) \<and>
   cache_run counter_random [Put ''A'', Clear]
       (0, Lfu \<lparr>lfu_cache = [], lfu_t = 0, lfu_maxlen = 2\<rparr>) =
     Inr (0, Lfu \<lparr>lfu_cache = [], lfu_t = 1, lfu_maxlen = 2\<rparr>) \<and>
   new_cache RAND 2 =
     Inr (Rand \<lparr>rand_cache = [], rand_a = [None, None], rand_maxlen = 2\<rparr> :: string cache) \<and>
   cache_run counter_random [Put ''A'', Clear]
       (0, Rand \<lparr>rand_cache = [], rand_a = [None, None], rand_maxlen = 2\<rparr>) =
     Inr (0, Rand \<lparr>rand_cache = [], rand_a = [Some ''A'', None], rand_maxlen = 2\<rparr>)"
  by (simp add: LfuCache_def RandCache_def np_empty_def numeral_2_eq_2 lfu_put_def lfu_has_def
      dict_has_def lfu_len_def lfu_clear_def randcache_put_def randcache_has_def
      randcache_len_def np_index_def set_add_def randcache_clear_def Let_def)

end
